theory Spec2Isabelle
  imports Main "HOL-Library.Word" "HOL-Library.AList"
begin

section \<open>Data model\<close>

text \<open>
  The tokenizer of \<^verbatim>\<open>Homework/01/scripts/tokenizer.py\<close>.
  A Python \<^verbatim>\<open>str\<close> is a sequence of code points, a \<^verbatim>\<open>bytes\<close> object a
  sequence of 8-bit values, a token id an unbounded Python integer. A \<^verbatim>\<open>dict\<close>
  keeps its keys in insertion order and \<^verbatim>\<open>max\<close> iterates over them in that
  order, so dictionaries are association lists with distinct keys: a store
  \<^verbatim>\<open>d[k] = v\<close> is \<open>AList.update k v d\<close> (in place for a key that is present,
  appended for a new one), a read \<^verbatim>\<open>d[k]\<close> is \<open>map_of d k\<close> with \<open>None\<close>
  the \<^verbatim>\<open>KeyError\<close>.
\<close>

type_synonym byte = "8 word"
type_synonym bytes = "byte list"
type_synonym str = "nat list"
type_synonym pair = "int \<times> int"

datatype error = KeyError | ValueError | UnicodeEncodeError

text \<open>
  A call that mutates \<^verbatim>\<open>self\<close> and may raise returns its result together
  with the object as the call left it: an exception does not undo the
  assignments made before it.
\<close>

type_synonym ('a, 's) outcome = "(error + 'a) \<times> 's"

record ByteTokenizer =
  pad_token_id :: "int option"
  bos_token_id :: "int option"
  eos_token_id :: "int option"
  vocab :: "(int \<times> bytes) list"

record BpeTokenizer = ByteTokenizer +
  merges :: "(pair \<times> int) list"

text \<open>
  The attributes \<^verbatim>\<open>pad_token\<close>, \<^verbatim>\<open>bos_token\<close>, \<^verbatim>\<open>eos_token\<close> and
  \<^verbatim>\<open>special_tokens\<close> are assigned once in \<^verbatim>\<open>__init__\<close> and never again:
  they are constants. The byte strings are \<^verbatim>\<open>b'<pad>'\<close>, \<^verbatim>\<open>b'<bos>'\<close> and
  \<^verbatim>\<open>b'<eos>'\<close>.
\<close>

definition pad_token :: bytes where
  "pad_token = [0x3C, 0x70, 0x61, 0x64, 0x3E]"

definition bos_token :: bytes where
  "bos_token = [0x3C, 0x62, 0x6F, 0x73, 0x3E]"

definition eos_token :: bytes where
  "eos_token = [0x3C, 0x65, 0x6F, 0x73, 0x3E]"

definition special_tokens :: "bytes list" where
  "special_tokens = [pad_token, bos_token, eos_token]"

section \<open>The UTF-8 codec of the Python runtime\<close>

text \<open>
  \<^verbatim>\<open>str.encode('utf-8')\<close>: one to four bytes per code point; a surrogate
  (U+D800 to U+DFFF) raises \<^verbatim>\<open>UnicodeEncodeError\<close>. The code points of a Python
  string are below \<open>0x110000\<close>.
\<close>

definition utf8_encode_char :: "nat \<Rightarrow> error + nat list" where
  "utf8_encode_char c =
     (if c < 0x80 then Inr [c]
      else if c < 0x800 then Inr [0xC0 + c div 0x40, 0x80 + c mod 0x40]
      else if c < 0x10000 then
        (if 0xD800 \<le> c \<and> c < 0xE000 then Inl UnicodeEncodeError
         else Inr [0xE0 + c div 0x1000, 0x80 + c div 0x40 mod 0x40, 0x80 + c mod 0x40])
      else Inr [0xF0 + c div 0x40000, 0x80 + c div 0x1000 mod 0x40,
                0x80 + c div 0x40 mod 0x40, 0x80 + c mod 0x40])"

fun str_encode :: "str \<Rightarrow> error + bytes" where
  "str_encode [] = Inr []"
| "str_encode (c # cs) =
     (case utf8_encode_char c of
        Inl e \<Rightarrow> Inl e
      | Inr bs \<Rightarrow>
         (case str_encode cs of
            Inl e \<Rightarrow> Inl e
          | Inr r \<Rightarrow> Inr (map of_nat bs @ r)))"

text \<open>
  \<^verbatim>\<open>bytes.decode('utf-8', errors='replace')\<close>: every well-formed sequence gives
  its code point; every maximal ill-formed run (an invalid start byte, a
  sequence cut by an invalid continuation byte or by the end of the data) gives
  one U+FFFD, and decoding goes on behind it. It never raises.
\<close>

definition is_continuation_byte :: "nat \<Rightarrow> bool" where
  "is_continuation_byte b = (0x80 \<le> b \<and> b < 0xC0)"

fun utf8_decode_replace :: "nat list \<Rightarrow> str" where
  "utf8_decode_replace [] = []"
| "utf8_decode_replace (ch # s) =
     (if ch < 0x80 then ch # utf8_decode_replace s
      else if ch < 0xC2 then 0xFFFD # utf8_decode_replace s
      else if ch < 0xE0 then
        (case s of
           [] \<Rightarrow> [0xFFFD]
         | ch2 # s2 \<Rightarrow>
            if is_continuation_byte ch2
            then ((ch - 0xC0) * 0x40 + (ch2 - 0x80)) # utf8_decode_replace s2
            else 0xFFFD # utf8_decode_replace s)
      else if ch < 0xF0 then
        (case s of
           [] \<Rightarrow> [0xFFFD]
         | ch2 # s2 \<Rightarrow>
            if \<not> is_continuation_byte ch2 \<or> (if ch2 < 0xA0 then ch = 0xE0 else ch = 0xED)
            then 0xFFFD # utf8_decode_replace s
            else
              (case s2 of
                 [] \<Rightarrow> [0xFFFD]
               | ch3 # s3 \<Rightarrow>
                  if is_continuation_byte ch3
                  then ((ch - 0xE0) * 0x1000 + (ch2 - 0x80) * 0x40 + (ch3 - 0x80))
                         # utf8_decode_replace s3
                  else 0xFFFD # utf8_decode_replace s2))
      else if ch < 0xF5 then
        (case s of
           [] \<Rightarrow> [0xFFFD]
         | ch2 # s2 \<Rightarrow>
            if \<not> is_continuation_byte ch2 \<or> (if ch2 < 0x90 then ch = 0xF0 else ch = 0xF4)
            then 0xFFFD # utf8_decode_replace s
            else
              (case s2 of
                 [] \<Rightarrow> [0xFFFD]
               | ch3 # s3 \<Rightarrow>
                  if \<not> is_continuation_byte ch3
                  then 0xFFFD # utf8_decode_replace s2
                  else
                    (case s3 of
                       [] \<Rightarrow> [0xFFFD]
                     | ch4 # s4 \<Rightarrow>
                        if is_continuation_byte ch4
                        then ((ch - 0xF0) * 0x40000 + (ch2 - 0x80) * 0x1000
                                + (ch3 - 0x80) * 0x40 + (ch4 - 0x80))
                               # utf8_decode_replace s4
                        else 0xFFFD # utf8_decode_replace s3)))
      else 0xFFFD # utf8_decode_replace s)"

definition bytes_decode :: "bytes \<Rightarrow> str" where
  "bytes_decode bs = utf8_decode_replace (map unat bs)"

text \<open>The strings \<^verbatim>\<open>str.encode\<close> accepts: code points of Unicode scalar values.\<close>

definition scalar_value :: "nat \<Rightarrow> bool" where
  "scalar_value c = (c < 0x110000 \<and> \<not> (0xD800 \<le> c \<and> c < 0xE000))"

definition encodable :: "str \<Rightarrow> bool" where
  "encodable text = list_all scalar_value text"

section \<open>ByteTokenizer\<close>

text \<open>
  \<^verbatim>\<open>init_vocab\<close>: the 256 single bytes, then each special token under the key
  \<^verbatim>\<open>len(self.vocab)\<close>; the reversed dictionary \<^verbatim>\<open>token_to_id\<close> gives the three
  control ids.
\<close>

definition byte_vocab :: "(int \<times> bytes) list" where
  "byte_vocab = map (\<lambda>idx. (int idx, [of_nat idx])) [0 ..< 256]"

definition add_token :: "(int \<times> bytes) list \<Rightarrow> bytes \<Rightarrow> (int \<times> bytes) list" where
  "add_token v token = AList.update (int (length v)) token v"

definition token_to_id :: "(int \<times> bytes) list \<Rightarrow> (bytes \<times> int) list" where
  "token_to_id v = foldl (\<lambda>d (x, y). AList.update y x d) [] v"

definition ByteTokenizer_init_vocab ::
  "'a ByteTokenizer_scheme \<Rightarrow> (unit, 'a ByteTokenizer_scheme) outcome" where
  "ByteTokenizer_init_vocab self =
     (let self1 = self\<lparr>vocab := foldl add_token byte_vocab special_tokens\<rparr>;
          t2i = token_to_id (vocab self1)
      in case map_of t2i pad_token of
           None \<Rightarrow> (Inl KeyError, self1)
         | Some p \<Rightarrow>
            (let self2 = self1\<lparr>pad_token_id := Some p\<rparr>
             in case map_of t2i bos_token of
                  None \<Rightarrow> (Inl KeyError, self2)
                | Some b \<Rightarrow>
                   (let self3 = self2\<lparr>bos_token_id := Some b\<rparr>
                    in case map_of t2i eos_token of
                         None \<Rightarrow> (Inl KeyError, self3)
                       | Some e \<Rightarrow> (Inr (), self3\<lparr>eos_token_id := Some e\<rparr>))))"

text \<open>\<^verbatim>\<open>__init__\<close>: ids \<^verbatim>\<open>None\<close>, an empty vocabulary, then \<^verbatim>\<open>init_vocab\<close>.\<close>

definition ByteTokenizer_new :: "(unit, ByteTokenizer) outcome" where
  "ByteTokenizer_new =
     ByteTokenizer_init_vocab
       \<lparr>pad_token_id = None, bos_token_id = None, eos_token_id = None, vocab = []\<rparr>"

definition ByteTokenizer_train ::
  "str list \<Rightarrow> int \<Rightarrow> 'a ByteTokenizer_scheme \<Rightarrow> (unit, 'a ByteTokenizer_scheme) outcome" where
  "ByteTokenizer_train texts max_vocab self = ByteTokenizer_init_vocab self"

text \<open>\<^verbatim>\<open>list(text.encode('utf-8'))\<close>: the bytes as integers.\<close>

definition ByteTokenizer_encode :: "str \<Rightarrow> error + int list" where
  "ByteTokenizer_encode text =
     (case str_encode text of Inl e \<Rightarrow> Inl e | Inr bs \<Rightarrow> Inr (map uint bs))"

text \<open>
  \<^verbatim>\<open>b''.join(self.vocab[idx] for idx in ids)\<close>: the first id without an entry
  raises \<^verbatim>\<open>KeyError\<close>.
\<close>

fun join_vocab :: "(int \<times> bytes) list \<Rightarrow> int list \<Rightarrow> error + bytes" where
  "join_vocab v [] = Inr []"
| "join_vocab v (idx # ids) =
     (case map_of v idx of
        None \<Rightarrow> Inl KeyError
      | Some b \<Rightarrow>
         (case join_vocab v ids of
            Inl e \<Rightarrow> Inl e
          | Inr r \<Rightarrow> Inr (b @ r)))"

definition decode :: "'a ByteTokenizer_scheme \<Rightarrow> int list \<Rightarrow> error + str" where
  "decode self ids =
     (case join_vocab (vocab self) ids of
        Inl e \<Rightarrow> Inl e
      | Inr bs \<Rightarrow> Inr (bytes_decode bs))"

definition get_vocab_size :: "'a ByteTokenizer_scheme \<Rightarrow> int" where
  "get_vocab_size self = int (length (vocab self))"

section \<open>count_pairs and merge\<close>

text \<open>\<^verbatim>\<open>pairs.get(pair, 0)\<close>.\<close>

definition dict_get :: "('k \<times> 'v) list \<Rightarrow> 'k \<Rightarrow> 'v \<Rightarrow> 'v" where
  "dict_get d k dflt = (case map_of d k of None \<Rightarrow> dflt | Some v \<Rightarrow> v)"

definition count_step :: "(pair \<times> int) list \<Rightarrow> pair \<Rightarrow> (pair \<times> int) list" where
  "count_step pairs pair = AList.update pair (dict_get pairs pair 0 + 1) pairs"

text \<open>
  The inner loop \<^verbatim>\<open>for i in range(len(ids) - 1)\<close>; for an empty \<^verbatim>\<open>ids\<close> the
  range is empty, as \<open>[0 ..< 0 - 1]\<close> is.
\<close>

definition count_seq :: "(pair \<times> int) list \<Rightarrow> int list \<Rightarrow> (pair \<times> int) list" where
  "count_seq pairs ids =
     foldl (\<lambda>pairs i. count_step pairs (ids ! i, ids ! (i + 1))) pairs [0 ..< length ids - 1]"

definition count_pairs :: "int list list \<Rightarrow> (pair \<times> int) list" where
  "count_pairs data = foldl count_seq [] data"

text \<open>The \<^verbatim>\<open>while i < len(numbers)\<close> loop of \<^verbatim>\<open>merge\<close>, on \<^verbatim>\<open>i\<close> and \<^verbatim>\<open>result\<close>.\<close>

function merge_loop :: "int list \<Rightarrow> pair \<Rightarrow> int \<Rightarrow> nat \<Rightarrow> int list \<Rightarrow> int list" where
  "merge_loop numbers pair idx i result =
     (if i < length numbers then
        (if i < length numbers - 1 \<and> (numbers ! i, numbers ! (i + 1)) = pair
         then merge_loop numbers pair idx (i + 2) (result @ [idx])
         else merge_loop numbers pair idx (i + 1) (result @ [numbers ! i]))
      else result)"
  by pat_completeness auto
termination
  by (relation "measure (\<lambda>(numbers, pair, idx, i, result). length numbers - i)") auto

declare merge_loop.simps [simp del]

definition merge :: "int list \<Rightarrow> pair \<Rightarrow> int \<Rightarrow> int list" where
  "merge numbers pair idx = merge_loop numbers pair idx 0 []"

section \<open>Pair selection\<close>

text \<open>
  \<^verbatim>\<open>max(cnt.keys(), key=lambda p: (cnt[p], sum(p)))\<close>. Python compares the key
  tuples lexicographically; \<^verbatim>\<open>max\<close> keeps the first item and replaces it only by
  an item whose key is strictly greater, and raises \<^verbatim>\<open>ValueError\<close> on an empty
  sequence. The keys of \<^verbatim>\<open>cnt\<close> are read together with their counts, as the
  items of the dictionary.
\<close>

definition tuple_less :: "int \<times> int \<Rightarrow> int \<times> int \<Rightarrow> bool" where
  "tuple_less a b = (fst a < fst b \<or> (fst a = fst b \<and> snd a < snd b))"

definition pair_key :: "pair \<times> int \<Rightarrow> int \<times> int" where
  "pair_key item = (snd item, fst (fst item) + snd (fst item))"

fun py_max :: "('a \<Rightarrow> int \<times> int) \<Rightarrow> 'a list \<Rightarrow> error + 'a" where
  "py_max key [] = Inl ValueError"
| "py_max key (x # xs) =
     Inr (foldl (\<lambda>best y. if tuple_less (key best) (key y) then y else best) x xs)"

definition best_pair :: "(pair \<times> int) list \<Rightarrow> error + pair \<times> int" where
  "best_pair cnt = py_max pair_key cnt"

section \<open>BpeTokenizer\<close>

definition BpeTokenizer_init_vocab :: "BpeTokenizer \<Rightarrow> (unit, BpeTokenizer) outcome" where
  "BpeTokenizer_init_vocab self =
     (case ByteTokenizer_init_vocab self of
        (Inl e, self1) \<Rightarrow> (Inl e, self1)
      | (Inr u, self1) \<Rightarrow> (Inr (), self1\<lparr>merges := []\<rparr>))"

text \<open>\<^verbatim>\<open>__init__\<close>: \<^verbatim>\<open>self.merges = {}\<close>, then the parent's constructor, which
  calls the overridden \<^verbatim>\<open>init_vocab\<close>.\<close>

definition BpeTokenizer_new :: "(unit, BpeTokenizer) outcome" where
  "BpeTokenizer_new =
     BpeTokenizer_init_vocab
       \<lparr>pad_token_id = None, bos_token_id = None, eos_token_id = None, vocab = [],
        merges = []\<rparr>"

text \<open>
  One pass of the training loop over the tokenizer and the local
  \<^verbatim>\<open>list_of_ids\<close>. \<^verbatim>\<open>self.merges[pair]\<close> is stored before the two vocabulary
  reads that can raise.
\<close>

datatype 's step = Raise error 's | Break 's | Next 's

definition train_body :: "BpeTokenizer \<times> int list list \<Rightarrow> (BpeTokenizer \<times> int list list) step" where
  "train_body st =
     (let self = fst st; list_of_ids = snd st; cnt = count_pairs list_of_ids
      in case best_pair cnt of
           Inl e \<Rightarrow> Raise e st
         | Inr (pair, freq) \<Rightarrow>
            if freq = 1 then Break st
            else
              (let new_idx = int (length (vocab self));
                   self1 = self\<lparr>merges := AList.update pair new_idx (merges self)\<rparr>
               in case map_of (vocab self1) (fst pair) of
                    None \<Rightarrow> Raise KeyError (self1, list_of_ids)
                  | Some b0 \<Rightarrow>
                     (case map_of (vocab self1) (snd pair) of
                        None \<Rightarrow> Raise KeyError (self1, list_of_ids)
                      | Some b1 \<Rightarrow>
                         Next (self1\<lparr>vocab := AList.update new_idx (b0 @ b1) (vocab self1)\<rparr>,
                               map (\<lambda>ids. merge ids pair new_idx) list_of_ids))))"

text \<open>\<^verbatim>\<open>for _ in range(n)\<close> with its \<^verbatim>\<open>break\<close>.\<close>

fun train_loop ::
  "nat \<Rightarrow> BpeTokenizer \<times> int list list \<Rightarrow> (unit, BpeTokenizer \<times> int list list) outcome" where
  "train_loop 0 st = (Inr (), st)"
| "train_loop (Suc n) st =
     (case train_body st of
        Raise e st1 \<Rightarrow> (Inl e, st1)
      | Break st1 \<Rightarrow> (Inr (), st1)
      | Next st1 \<Rightarrow> train_loop n st1)"

text \<open>\<^verbatim>\<open>[list(text.encode('utf-8')) for text in texts]\<close>.\<close>

fun encode_texts :: "str list \<Rightarrow> error + int list list" where
  "encode_texts [] = Inr []"
| "encode_texts (text # texts) =
     (case ByteTokenizer_encode text of
        Inl e \<Rightarrow> Inl e
      | Inr ids \<Rightarrow>
         (case encode_texts texts of
            Inl e \<Rightarrow> Inl e
          | Inr r \<Rightarrow> Inr (ids # r)))"

text \<open>
  \<^verbatim>\<open>train\<close>, returning the local \<^verbatim>\<open>list_of_ids\<close> beside the tokenizer (empty
  where it was never assigned), and \<^verbatim>\<open>train\<close> itself. The progress bar only
  displays the pair and its frequency and is left out.
\<close>

definition train_run ::
  "str list \<Rightarrow> int \<Rightarrow> BpeTokenizer \<Rightarrow> (unit, BpeTokenizer \<times> int list list) outcome" where
  "train_run texts max_vocab self =
     (case BpeTokenizer_init_vocab self of
        (Inl e, self1) \<Rightarrow> (Inl e, (self1, []))
      | (Inr u, self1) \<Rightarrow>
         if max_vocab \<le> int (length (vocab self1)) then (Inr (), (self1, []))
         else
           (case encode_texts texts of
              Inl e \<Rightarrow> (Inl e, (self1, []))
            | Inr list_of_ids \<Rightarrow>
               train_loop (nat (max_vocab - int (length (vocab self1)))) (self1, list_of_ids)))"

definition train :: "str list \<Rightarrow> int \<Rightarrow> BpeTokenizer \<Rightarrow> (unit, BpeTokenizer) outcome" where
  "train texts max_vocab self =
     (case train_run texts max_vocab self of (r, (self1, list_of_ids)) \<Rightarrow> (r, self1))"

text \<open>
  The \<^verbatim>\<open>while len(ids) > 1\<close> loop of \<^verbatim>\<open>encode\<close>. Nothing bounds its number of
  passes in the source, so the result is an option: \<open>None\<close> is a loop that
  never ends.
\<close>

partial_function (option) encode_loop ::
  "(pair \<times> int) list \<Rightarrow> int list \<Rightarrow> (error + int list) option" where
  "encode_loop m ids =
     (if length ids > 1 then
        (case best_pair (count_pairs [ids]) of
           Inl e \<Rightarrow> Some (Inl e)
         | Inr (pair, freq) \<Rightarrow>
            (case map_of m pair of
               None \<Rightarrow> Some (Inr ids)
             | Some idx \<Rightarrow> encode_loop m (merge ids pair idx)))
      else Some (Inr ids))"

declare encode_loop.simps [code]

definition encode :: "BpeTokenizer \<Rightarrow> str \<Rightarrow> (error + int list) option" where
  "encode self text =
     (case ByteTokenizer_encode text of
        Inl e \<Rightarrow> Some (Inl e)
      | Inr ids \<Rightarrow> encode_loop (merges self) ids)"

section \<open>Auxiliary notions of the specification\<close>

text \<open>
  The scan of \<^verbatim>\<open>merge\<close> as a recursion on the list, the number of adjacent
  occurrences of a pair counted position by position, and the position that
  \<^verbatim>\<open>max\<close> returns: the first one whose key no other key exceeds.
\<close>

fun substitute :: "int list \<Rightarrow> pair \<Rightarrow> int \<Rightarrow> int list" where
  "substitute [] pair idx = []"
| "substitute [x] pair idx = [x]"
| "substitute (x # y # rest) pair idx =
     (if (x, y) = pair then idx # substitute rest pair idx
      else x # substitute (y # rest) pair idx)"

definition occurrences :: "int list \<Rightarrow> pair \<Rightarrow> nat" where
  "occurrences ids p =
     length (filter (\<lambda>i. (ids ! i, ids ! (i + 1)) = p) [0 ..< length ids - 1])"

definition total_occurrences :: "int list list \<Rightarrow> pair \<Rightarrow> nat" where
  "total_occurrences data p = sum_list (map (\<lambda>ids. occurrences ids p) data)"

definition first_max :: "('a \<Rightarrow> int \<times> int) \<Rightarrow> 'a list \<Rightarrow> nat \<Rightarrow> bool" where
  "first_max key xs i \<longleftrightarrow>
     i < length xs \<and>
     (\<forall>j < length xs. \<not> tuple_less (key (xs ! i)) (key (xs ! j))) \<and>
     (\<forall>j < i. tuple_less (key (xs ! j)) (key (xs ! i)))"

definition max_step :: "('a \<Rightarrow> int \<times> int) \<Rightarrow> 'a \<Rightarrow> 'a \<Rightarrow> 'a" where
  "max_step key best y = (if tuple_less (key best) (key y) then y else best)"

text \<open>
  The selection rule in the words of the specification: an entry of the count
  table that no other entry beats on frequency, nor on the sum of the two ids
  among the entries of the same frequency.
\<close>

definition spec_winner :: "(pair \<times> int) list \<Rightarrow> pair \<times> int \<Rightarrow> bool" where
  "spec_winner cnt w \<longleftrightarrow>
     w \<in> set cnt \<and>
     (\<forall>c \<in> set cnt.
        snd c < snd w \<or>
        (snd c = snd w \<and> fst (fst c) + snd (fst c) \<le> fst (fst w) + snd (fst w)))"

text \<open>
  The pairs of the sequences in the order in which \<^verbatim>\<open>count_pairs\<close> scans them,
  the key \<^verbatim>\<open>(cnt[p], sum(p))\<close> of a pair written with the number of its
  occurrences, and the pair that the selection returns, in terms of the
  sequences alone: the pair at the first position of the scan whose key no
  scanned pair exceeds, every pair scanned before it having a strictly smaller
  key.
\<close>

definition adjacent_pairs :: "int list list \<Rightarrow> pair list" where
  "adjacent_pairs data =
     concat (map (\<lambda>ids. map (\<lambda>i. (ids ! i, ids ! (i + 1))) [0 ..< length ids - 1]) data)"

definition scan_key :: "int list list \<Rightarrow> pair \<Rightarrow> int \<times> int" where
  "scan_key data p = (int (total_occurrences data p), fst p + snd p)"

definition first_best :: "int list list \<Rightarrow> pair \<Rightarrow> bool" where
  "first_best data p \<longleftrightarrow>
     (\<exists>n \<in> {0 ..< length (adjacent_pairs data)}.
        adjacent_pairs data ! n = p \<and>
        (\<forall>k \<in> {0 ..< n}.
           tuple_less (scan_key data (adjacent_pairs data ! k)) (scan_key data p)) \<and>
        (\<forall>k \<in> {0 ..< length (adjacent_pairs data)}.
           \<not> tuple_less (scan_key data p) (scan_key data (adjacent_pairs data ! k))))"

text \<open>
  The vocabulary that \<^verbatim>\<open>init_vocab\<close> builds, the tokenizer after the reset
  at the head of \<^verbatim>\<open>train\<close>, and the length of the vocabulary in a state of
  the training loop.
\<close>

definition base_vocab :: "(int \<times> bytes) list" where
  "base_vocab = byte_vocab @ [(256, pad_token), (257, bos_token), (258, eos_token)]"

definition reset :: "BpeTokenizer \<Rightarrow> BpeTokenizer" where
  "reset self = self\<lparr>vocab := base_vocab, pad_token_id := Some 256,
                     bos_token_id := Some 257, eos_token_id := Some 258, merges := []\<rparr>"

definition vocab_len :: "BpeTokenizer \<times> int list list \<Rightarrow> nat" where
  "vocab_len st = length (vocab (fst st))"

text \<open>
  The invariant of training. The keys of the vocabulary are \<open>0, 1, \<dots>\<close> up
  to its length, in this order, so that \<^verbatim>\<open>len(self.vocab)\<close> is a new key;
  every byte value expands to itself; every entry of the merge table names
  three ids of the vocabulary, the expansion of the new id being the
  expansions of the two parents one after the other; and every id of the
  sequences is a key of the vocabulary.
\<close>

definition dense_keys :: "(int \<times> 'v) list \<Rightarrow> bool" where
  "dense_keys v \<longleftrightarrow> map fst v = map int [0 ..< length v]"

definition bytes_ok :: "(int \<times> bytes) list \<Rightarrow> bool" where
  "bytes_ok v \<longleftrightarrow> (\<forall>b :: byte. map_of v (uint b) = Some [b])"

definition merges_ok :: "(int \<times> bytes) list \<Rightarrow> (pair \<times> int) list \<Rightarrow> bool" where
  "merges_ok v m \<longleftrightarrow>
     (\<forall>e \<in> set m. \<exists>b0 b1.
        map_of v (fst (fst e)) = Some b0 \<and> map_of v (snd (fst e)) = Some b1 \<and>
        map_of v (snd e) = Some (b0 @ b1))"

definition ids_ok :: "(int \<times> bytes) list \<Rightarrow> int list \<Rightarrow> bool" where
  "ids_ok v ids \<longleftrightarrow> set ids \<subseteq> fst ` set v"

definition tok_inv :: "BpeTokenizer \<Rightarrow> bool" where
  "tok_inv self \<longleftrightarrow>
     dense_keys (vocab self) \<and> bytes_ok (vocab self) \<and> merges_ok (vocab self) (merges self)"

definition train_inv :: "BpeTokenizer \<times> int list list \<Rightarrow> bool" where
  "train_inv st \<longleftrightarrow> tok_inv (fst st) \<and> (\<forall>ids \<in> set (snd st). ids_ok (vocab (fst st)) ids)"

text \<open>
  Concrete tokenizers for the examples: the one that training on the single
  text \<^verbatim>\<open>'aaaa'\<close> with target 300 leaves behind, the one after one pass of
  training on the sequence \<open>[1, 2, 1, 2, 1]\<close>, and a byte tokenizer whose
  vocabulary holds a truncated sequence and an invalid start byte.
\<close>

definition trained_aaaa :: "BpeTokenizer \<Rightarrow> BpeTokenizer" where
  "trained_aaaa self =
     (reset self)\<lparr>merges := [((97, 97), 259)], vocab := base_vocab @ [(259, [97, 97])]\<rparr>"

definition trained_12121 :: "BpeTokenizer \<Rightarrow> BpeTokenizer" where
  "trained_12121 self =
     (reset self)\<lparr>merges := [((1, 2), 259)], vocab := base_vocab @ [(259, [1, 2])]\<rparr>"

definition lossy_example :: ByteTokenizer where
  "lossy_example =
     \<lparr>pad_token_id = None, bos_token_id = None, eos_token_id = None,
      vocab = [(0, [0x41]), (1, [0xE2, 0x82]), (2, [0xFF])]\<rparr>"

section \<open>The scan of merge\<close>

lemma merge_loop_substitute:
  "merge_loop numbers pair idx i result = result @ substitute (drop i numbers) pair idx"
proof (induction numbers pair idx i result rule: merge_loop.induct)
  case (1 numbers pair idx i result)
  show ?case
  proof (cases "i < length numbers")
    case False
    then show ?thesis by (simp add: merge_loop.simps[of numbers pair idx i result])
  next
    case True
    note inb = True
    show ?thesis
    proof (cases "i < length numbers - 1")
      case False
      with inb have last: "Suc i = length numbers" by simp
      have d: "drop i numbers = [numbers ! i]"
        using inb last by (metis Cons_nth_drop_Suc drop_all order_refl)
      have "merge_loop numbers pair idx i result = merge_loop numbers pair idx (i + 1) (result @ [numbers ! i])"
        using inb False by (subst merge_loop.simps) simp
      also have "\<dots> = (result @ [numbers ! i]) @ substitute (drop (i + 1) numbers) pair idx"
        using "1.IH"(2) inb False by simp
      finally show ?thesis using d last by simp
    next
      case True
      note i0 = True
      then have i1: "Suc i < length numbers" by simp
      have d: "drop i numbers = numbers ! i # numbers ! (i + 1) # drop (i + 2) numbers"
        using inb i1 by (simp add: Cons_nth_drop_Suc)
      show ?thesis
      proof (cases "(numbers ! i, numbers ! (i + 1)) = pair")
        case True
        have "merge_loop numbers pair idx i result = merge_loop numbers pair idx (i + 2) (result @ [idx])"
          using inb i0 True by (subst merge_loop.simps) simp
        also have "\<dots> = (result @ [idx]) @ substitute (drop (i + 2) numbers) pair idx"
          using "1.IH"(1) inb i0 True by simp
        finally show ?thesis using d True by simp
      next
        case False
        have "merge_loop numbers pair idx i result = merge_loop numbers pair idx (i + 1) (result @ [numbers ! i])"
          using inb False by (subst merge_loop.simps) simp
        also have "\<dots> = (result @ [numbers ! i]) @ substitute (drop (i + 1) numbers) pair idx"
          using "1.IH"(2) inb False by simp
        finally show ?thesis
          using False i1 by (simp add: d Cons_nth_drop_Suc[of "Suc i" numbers, symmetric])
      qed
    qed
  qed
qed

lemma merge_substitute: "merge numbers pair idx = substitute numbers pair idx"
  by (simp add: merge_def merge_loop_substitute)

lemma length_substitute_le: "length (substitute xs pair idx) \<le> length xs"
  by (induction xs pair idx rule: substitute.induct) auto

lemma length_substitute_less:
  "pair \<in> set (zip xs (tl xs)) \<Longrightarrow> length (substitute xs pair idx) < length xs"
proof (induction xs pair idx rule: substitute.induct)
  case (3 x y rest pair idx)
  then show ?case
    using length_substitute_le[of rest pair idx] by (auto simp: less_Suc_eq_le)
qed auto

lemma set_substitute: "set (substitute xs pair idx) \<subseteq> insert idx (set xs)"
  by (induction xs pair idx rule: substitute.induct) auto

section \<open>Counting adjacent pairs\<close>

lemma adjacent_map:
  "map (\<lambda>i. (ids ! i, ids ! (i + 1))) [0 ..< length ids - 1] = zip ids (tl ids)"
  by (rule nth_equalityI) (auto simp: nth_tl)

lemma count_seq_zip: "count_seq pairs ids = foldl count_step pairs (zip ids (tl ids))"
  unfolding count_seq_def adjacent_map[symmetric] by (simp add: foldl_map)

lemma occurrences_zip: "occurrences ids p = count_list (zip ids (tl ids)) p"
proof -
  have "count_list (zip ids (tl ids)) p
        = length (filter ((=) p) (map (\<lambda>i. (ids ! i, ids ! (i + 1))) [0 ..< length ids - 1]))"
    by (simp only: count_list_eq_length_filter adjacent_map)
  also have "\<dots> = occurrences ids p"
    by (simp add: occurrences_def filter_map comp_def) (metis)
  finally show ?thesis by simp
qed

lemma map_of_count_step:
  "map_of (count_step pairs p) q =
     (if q = p then Some (dict_get pairs p 0 + 1) else map_of pairs q)"
  by (simp add: count_step_def update_conv')

lemma dict_get_count_step:
  "dict_get (count_step pairs p) q 0 = dict_get pairs q 0 + (if q = p then 1 else 0)"
  by (simp add: dict_get_def map_of_count_step)

lemma distinct_count_step:
  "distinct (map fst pairs) \<Longrightarrow> distinct (map fst (count_step pairs p))"
  by (simp add: count_step_def distinct_update)

lemma keys_count_step: "fst ` set (count_step pairs p) = insert p (fst ` set pairs)"
  by (simp add: count_step_def dom_update)

lemma map_of_foldl_count_step:
  "map_of (foldl count_step pairs ps) q =
     (if count_list ps q = 0 then map_of pairs q
      else Some (dict_get pairs q 0 + int (count_list ps q)))"
proof (induction ps arbitrary: pairs)
  case Nil
  show ?case by simp
next
  case (Cons a ps)
  show ?case
    by (simp add: Cons.IH map_of_count_step dict_get_count_step)
qed

lemma distinct_foldl_count_step:
  "distinct (map fst pairs) \<Longrightarrow> distinct (map fst (foldl count_step pairs ps))"
  by (induction ps arbitrary: pairs) (simp_all add: distinct_count_step)

lemma keys_foldl_count_step:
  "fst ` set (foldl count_step pairs ps) = fst ` set pairs \<union> set ps"
  by (induction ps arbitrary: pairs) (auto simp: keys_count_step)

lemma map_of_count_seq:
  "map_of (count_seq pairs ids) q =
     (if occurrences ids q = 0 then map_of pairs q
      else Some (dict_get pairs q 0 + int (occurrences ids q)))"
  by (simp add: count_seq_zip map_of_foldl_count_step occurrences_zip)

lemma dict_get_count_seq:
  "dict_get (count_seq pairs ids) q 0 = dict_get pairs q 0 + int (occurrences ids q)"
  by (simp add: dict_get_def map_of_count_seq split: option.splits)

lemma map_of_foldl_count_seq:
  "map_of (foldl count_seq pairs data) q =
     (if total_occurrences data q = 0 then map_of pairs q
      else Some (dict_get pairs q 0 + int (total_occurrences data q)))"
proof (induction data arbitrary: pairs)
  case Nil
  show ?case by (simp add: total_occurrences_def)
next
  case (Cons ids data)
  show ?case
    using Cons.IH[of "count_seq pairs ids"]
    by (auto simp: total_occurrences_def map_of_count_seq dict_get_count_seq dict_get_def)
qed

lemma distinct_foldl_count_seq:
  "distinct (map fst pairs) \<Longrightarrow> distinct (map fst (foldl count_seq pairs data))"
  by (induction data arbitrary: pairs) (simp_all add: count_seq_zip distinct_foldl_count_step)

lemma keys_foldl_count_seq:
  "fst ` set (foldl count_seq pairs data)
     = fst ` set pairs \<union> (\<Union>ids \<in> set data. set (zip ids (tl ids)))"
  by (induction data arbitrary: pairs) (auto simp: count_seq_zip keys_foldl_count_step)

lemma map_of_count_pairs:
  "map_of (count_pairs data) q =
     (if total_occurrences data q = 0 then None else Some (int (total_occurrences data q)))"
  by (simp add: count_pairs_def map_of_foldl_count_seq dict_get_def)

lemma distinct_count_pairs: "distinct (map fst (count_pairs data))"
  by (simp add: count_pairs_def distinct_foldl_count_seq)

lemma keys_count_pairs:
  "fst ` set (count_pairs data) = (\<Union>ids \<in> set data. set (zip ids (tl ids)))"
  by (simp add: count_pairs_def keys_foldl_count_seq)

lemma count_pairs_example:
  "count_pairs [[1,2,3],[2,3,4],[1,2,2]] = [((1,2),2), ((2,3),2), ((3,4),1), ((2,2),1)]"
  by (simp add: count_pairs_def count_seq_def count_step_def dict_get_def)

section \<open>The pair that max returns\<close>

lemma tuple_less_irrefl: "\<not> tuple_less a a"
  by (simp add: tuple_less_def)

lemma tuple_less_le_trans: "\<not> tuple_less b a \<Longrightarrow> tuple_less b c \<Longrightarrow> tuple_less a c"
  by (auto simp: tuple_less_def)

lemma tuple_less_asym: "tuple_less a b \<Longrightarrow> \<not> tuple_less b a"
  by (auto simp: tuple_less_def)

lemma first_max_snoc_new:
  assumes fm: "first_max key zs i" and gt: "tuple_less (key (zs ! i)) (key y)"
  shows "first_max key (zs @ [y]) (length zs)"
  unfolding first_max_def
proof (intro conjI allI impI)
  show "length zs < length (zs @ [y])" by simp
next
  fix j assume "j < length (zs @ [y])"
  then have "j < length zs \<or> j = length zs" by auto
  then show "\<not> tuple_less (key ((zs @ [y]) ! length zs)) (key ((zs @ [y]) ! j))"
  proof
    assume j: "j < length zs"
    have "\<not> tuple_less (key (zs ! i)) (key (zs ! j))"
      using fm j by (simp add: first_max_def)
    then have "tuple_less (key (zs ! j)) (key y)"
      using gt by (rule tuple_less_le_trans)
    then have "\<not> tuple_less (key y) (key (zs ! j))"
      by (rule tuple_less_asym)
    then show ?thesis using j by (simp add: nth_append)
  next
    assume "j = length zs"
    then show ?thesis by (simp add: tuple_less_irrefl)
  qed
next
  fix j assume j: "j < length zs"
  have "\<not> tuple_less (key (zs ! i)) (key (zs ! j))"
    using fm j by (simp add: first_max_def)
  then have "tuple_less (key (zs ! j)) (key y)"
    using gt by (rule tuple_less_le_trans)
  then show "tuple_less (key ((zs @ [y]) ! j)) (key ((zs @ [y]) ! length zs))"
    using j by (simp add: nth_append)
qed

lemma first_max_snoc_old:
  assumes fm: "first_max key zs i" and ngt: "\<not> tuple_less (key (zs ! i)) (key y)"
  shows "first_max key (zs @ [y]) i"
  unfolding first_max_def
proof (intro conjI allI impI)
  show "i < length (zs @ [y])" using fm by (simp add: first_max_def)
next
  fix j assume "j < length (zs @ [y])"
  then have "j < length zs \<or> j = length zs" by auto
  moreover have il: "i < length zs" using fm by (simp add: first_max_def)
  ultimately show "\<not> tuple_less (key ((zs @ [y]) ! i)) (key ((zs @ [y]) ! j))"
    using fm ngt by (auto simp: nth_append first_max_def)
next
  fix j assume j: "j < i"
  moreover have il: "i < length zs" using fm by (simp add: first_max_def)
  ultimately show "tuple_less (key ((zs @ [y]) ! j)) (key ((zs @ [y]) ! i))"
    using fm by (simp add: nth_append first_max_def)
qed

lemma foldl_first_max:
  "zs \<noteq> [] \<Longrightarrow>
     \<exists>i. first_max key zs i \<and> foldl (max_step key) (hd zs) (tl zs) = zs ! i"
proof (induction zs rule: rev_induct)
  case Nil
  then show ?case by simp
next
  case (snoc y zs)
  show ?case
  proof (cases "zs = []")
    case True
    have "first_max key [y] 0"
      by (simp add: first_max_def tuple_less_irrefl)
    then show ?thesis using True by auto
  next
    case False
    with snoc.IH obtain i where fm: "first_max key zs i"
      and b: "foldl (max_step key) (hd zs) (tl zs) = zs ! i"
      by blast
    have il: "i < length zs" using fm by (simp add: first_max_def)
    have f: "foldl (max_step key) (hd (zs @ [y])) (tl (zs @ [y])) = max_step key (zs ! i) y"
      using False b by simp
    show ?thesis
    proof (cases "tuple_less (key (zs ! i)) (key y)")
      case True
      have "first_max key (zs @ [y]) (length zs)"
        using fm True by (rule first_max_snoc_new)
      moreover have "max_step key (zs ! i) y = (zs @ [y]) ! length zs"
        using True by (simp add: max_step_def)
      ultimately show ?thesis using f by metis
    next
      case False
      have "first_max key (zs @ [y]) i"
        using fm False by (rule first_max_snoc_old)
      moreover have "max_step key (zs ! i) y = (zs @ [y]) ! i"
        using False il by (simp add: max_step_def nth_append)
      ultimately show ?thesis using f by metis
    qed
  qed
qed

lemma py_max_first_max:
  assumes "py_max key xs = Inr b"
  shows "\<exists>i. first_max key xs i \<and> xs ! i = b"
proof (cases xs)
  case Nil
  with assms show ?thesis by simp
next
  case (Cons x xs')
  then have ne: "xs \<noteq> []" by simp
  from assms Cons have "foldl (max_step key) (hd xs) (tl xs) = b"
    by (simp add: max_step_def[abs_def])
  with foldl_first_max[OF ne, of key] show ?thesis by auto
qed

lemma py_max_nonempty: "xs \<noteq> [] \<Longrightarrow> \<exists>b. py_max key xs = Inr b"
  by (cases xs) auto

lemma not_tuple_less_pair_key:
  "\<not> tuple_less (pair_key w) (pair_key c) \<longleftrightarrow>
     snd c < snd w \<or> (snd c = snd w \<and> fst (fst c) + snd (fst c) \<le> fst (fst w) + snd (fst w))"
  by (auto simp: tuple_less_def pair_key_def)

lemma first_max_spec_winner:
  assumes "first_max pair_key cnt i"
  shows "spec_winner cnt (cnt ! i)"
  unfolding spec_winner_def
proof (intro conjI ballI)
  from assms show "cnt ! i \<in> set cnt" by (simp add: first_max_def)
next
  fix c assume "c \<in> set cnt"
  then have "\<exists>j < length cnt. cnt ! j = c"
    by (simp only: in_set_conv_nth)
  then obtain j where j: "j < length cnt" and c: "cnt ! j = c"
    by (elim exE conjE)
  from assms have "\<forall>j < length cnt. \<not> tuple_less (pair_key (cnt ! i)) (pair_key (cnt ! j))"
    by (simp add: first_max_def)
  with j have "\<not> tuple_less (pair_key (cnt ! i)) (pair_key (cnt ! j))"
    by (elim allE[of _ j]) simp
  then have "\<not> tuple_less (pair_key (cnt ! i)) (pair_key c)"
    by (simp add: c)
  then show "snd c < snd (cnt ! i) \<or>
      (snd c = snd (cnt ! i) \<and> fst (fst c) + snd (fst c) \<le> fst (fst (cnt ! i)) + snd (fst (cnt ! i)))"
    by (rule iffD1[OF not_tuple_less_pair_key])
qed

lemma cp121: "count_pairs [[1,2,1]] = [((1,2),1), ((2,1),1)]"
  by (simp add: count_pairs_def count_seq_def count_step_def dict_get_def)

lemma cp212: "count_pairs [[2,1,2]] = [((2,1),1), ((1,2),1)]"
  by (simp add: count_pairs_def count_seq_def count_step_def dict_get_def)

section \<open>The UTF-8 codec inverts itself on encodable strings\<close>

lemma base64_digits:
  fixes c :: nat
  shows "c = 0x40 * (c div 0x40) + c mod 0x40" "c mod 0x40 < 0x40"
  by simp_all

lemma div_4096: "(c::nat) div 0x1000 = c div 0x40 div 0x40"
proof -
  have "c div 0x40 div 0x40 = c div (0x40 * 0x40)" by (rule div_mult2_eq[symmetric])
  then show ?thesis by simp
qed

lemma div_262144: "(c::nat) div 0x40000 = c div 0x40 div 0x40 div 0x40"
proof -
  have "c div 0x1000 div 0x40 = c div (0x1000 * 0x40)" by (rule div_mult2_eq[symmetric])
  then show ?thesis by (simp add: div_4096)
qed

lemma digits3:
  fixes c :: nat
  defines "l \<equiv> c mod 0x40" and "m \<equiv> c div 0x40 mod 0x40" and "h \<equiv> c div 0x1000"
  shows "c = 0x1000 * h + 0x40 * m + l" "l < 0x40" "m < 0x40"
proof -
  define q where "q = c div 0x40"
  have 1: "c = 0x40 * q + l" unfolding q_def l_def by simp
  have 2: "q = 0x40 * h + m" unfolding q_def h_def m_def div_4096 by simp
  show "c = 0x1000 * h + 0x40 * m + l" using 1 2 by linarith
  show "l < 0x40" "m < 0x40" unfolding l_def m_def by simp_all
qed

lemma digits4:
  fixes c :: nat
  defines "l \<equiv> c mod 0x40" and "m \<equiv> c div 0x40 mod 0x40"
    and "k \<equiv> c div 0x1000 mod 0x40" and "h \<equiv> c div 0x40000"
  shows "c = 0x40000 * h + 0x1000 * k + 0x40 * m + l" "l < 0x40" "m < 0x40" "k < 0x40"
proof -
  define q where "q = c div 0x40"
  define s where "s = q div 0x40"
  have 1: "c = 0x40 * q + l" unfolding q_def l_def by simp
  have 2: "q = 0x40 * s + m" unfolding s_def q_def m_def by simp
  have 3: "s = 0x40 * h + k" unfolding s_def q_def h_def k_def div_262144 div_4096 by simp
  show "c = 0x40000 * h + 0x1000 * k + 0x40 * m + l" using 1 2 3 by linarith
  show "l < 0x40" "m < 0x40" "k < 0x40" unfolding l_def m_def k_def by simp_all
qed

lemma decode_1: "c < 0x80 \<Longrightarrow> utf8_decode_replace (c # rest) = c # utf8_decode_replace rest"
  by simp

lemma decode_2_digits:
  assumes "2 \<le> h" "h < 0x20" "l < 0x40"
  shows "utf8_decode_replace ((0xC0 + h) # (0x80 + l) # rest)
           = (0x40 * h + l) # utf8_decode_replace rest"
  using assms by (simp add: is_continuation_byte_def)

lemma decode_3_digits:
  assumes "h < 0x10" "m < 0x40" "l < 0x40" "m < 0x20 \<longrightarrow> 0 < h" "\<not> m < 0x20 \<longrightarrow> h \<noteq> 0xD"
  shows "utf8_decode_replace ((0xE0 + h) # (0x80 + m) # (0x80 + l) # rest)
           = (0x1000 * h + 0x40 * m + l) # utf8_decode_replace rest"
  using assms by (simp add: is_continuation_byte_def)

lemma decode_4_digits:
  assumes "h < 5" "k < 0x40" "m < 0x40" "l < 0x40" "k < 0x10 \<longrightarrow> 0 < h" "\<not> k < 0x10 \<longrightarrow> h \<noteq> 4"
  shows "utf8_decode_replace ((0xF0 + h) # (0x80 + k) # (0x80 + m) # (0x80 + l) # rest)
           = (0x40000 * h + 0x1000 * k + 0x40 * m + l) # utf8_decode_replace rest"
  using assms by (simp add: is_continuation_byte_def)

lemma decode_2:
  assumes "0x80 \<le> c" "c < 0x800"
  shows "utf8_decode_replace ((0xC0 + c div 0x40) # (0x80 + c mod 0x40) # rest)
           = c # utf8_decode_replace rest"
proof -
  define h where "h = c div 0x40"
  define l where "l = c mod 0x40"
  have c: "c = 0x40 * h + l" and l: "l < 0x40"
    unfolding h_def l_def by (rule base64_digits)+
  have h: "2 \<le> h" "h < 0x20" using assms c l by linarith+
  have "utf8_decode_replace ((0xC0 + h) # (0x80 + l) # rest) = (0x40 * h + l) # utf8_decode_replace rest"
    using h l by (rule decode_2_digits)
  then show ?thesis unfolding c[symmetric] unfolding h_def l_def .
qed

lemma decode_3:
  assumes "0x800 \<le> c" "c < 0x10000" "\<not> (0xD800 \<le> c \<and> c < 0xE000)"
  shows "utf8_decode_replace
           ((0xE0 + c div 0x1000) # (0x80 + c div 0x40 mod 0x40) # (0x80 + c mod 0x40) # rest)
           = c # utf8_decode_replace rest"
proof -
  define h where "h = c div 0x1000"
  define m where "m = c div 0x40 mod 0x40"
  define l where "l = c mod 0x40"
  have c: "c = 0x1000 * h + 0x40 * m + l" and l: "l < 0x40" and m: "m < 0x40"
    unfolding h_def l_def m_def by (rule digits3)+
  have h: "h < 0x10" using assms c by linarith
  have e0: "m < 0x20 \<longrightarrow> 0 < h"
  proof
    assume "m < 0x20"
    then show "0 < h" using assms c l by linarith
  qed
  have ed: "\<not> m < 0x20 \<longrightarrow> h \<noteq> 0xD"
  proof (intro impI notI)
    assume "\<not> m < 0x20" "h = 0xD"
    then show False using assms c l m by linarith
  qed
  have "utf8_decode_replace ((0xE0 + h) # (0x80 + m) # (0x80 + l) # rest)
          = (0x1000 * h + 0x40 * m + l) # utf8_decode_replace rest"
    using h m l e0 ed by (rule decode_3_digits)
  then show ?thesis unfolding c[symmetric] unfolding h_def m_def l_def .
qed

lemma decode_4:
  assumes "0x10000 \<le> c" "c < 0x110000"
  shows "utf8_decode_replace
           ((0xF0 + c div 0x40000) # (0x80 + c div 0x1000 mod 0x40)
              # (0x80 + c div 0x40 mod 0x40) # (0x80 + c mod 0x40) # rest)
           = c # utf8_decode_replace rest"
proof -
  define h where "h = c div 0x40000"
  define k where "k = c div 0x1000 mod 0x40"
  define m where "m = c div 0x40 mod 0x40"
  define l where "l = c mod 0x40"
  have c: "c = 0x40000 * h + 0x1000 * k + 0x40 * m + l"
    and l: "l < 0x40" and m: "m < 0x40" and k: "k < 0x40"
    unfolding h_def l_def m_def k_def by (rule digits4)+
  have h: "h < 5" using assms c by linarith
  have f0: "k < 0x10 \<longrightarrow> 0 < h"
  proof
    assume "k < 0x10"
    then show "0 < h" using assms c l m by linarith
  qed
  have f4: "\<not> k < 0x10 \<longrightarrow> h \<noteq> 4"
  proof (intro impI notI)
    assume "\<not> k < 0x10" "h = 4"
    then show False using assms c l m k by linarith
  qed
  have "utf8_decode_replace ((0xF0 + h) # (0x80 + k) # (0x80 + m) # (0x80 + l) # rest)
          = (0x40000 * h + 0x1000 * k + 0x40 * m + l) # utf8_decode_replace rest"
    using h k m l f0 f4 by (rule decode_4_digits)
  then show ?thesis unfolding c[symmetric] unfolding h_def k_def m_def l_def .
qed

lemma utf8_encode_char_bytes:
  assumes "c < 0x110000" "utf8_encode_char c = Inr bs"
  shows "\<forall>b \<in> set bs. b < 256"
proof -
  have d2: "c div 0x40 < 0x20" if "c < 0x800"
    using that base64_digits(1)[of c] by linarith
  have d3: "c div 0x1000 < 0x10" if "c < 0x10000"
    using that digits3(1)[of c] by linarith
  have d4: "c div 0x40000 < 5"
    using assms(1) digits4(1)[of c] by linarith
  have m: "c mod 0x40 < 0x80" "c div 0x40 mod 0x40 < 0x80" "c div 0x1000 mod 0x40 < 0x80"
    by (rule less_trans[of _ "0x40"], simp, simp)+
  show ?thesis
  proof (cases "c < 0x80")
    case True
    with assms(2) have "bs = [c]" by (simp add: utf8_encode_char_def)
    with True show ?thesis by simp
  next
    case False
    note c1 = False
    show ?thesis
    proof (cases "c < 0x800")
      case True
      with assms(2) c1 have "bs = [0xC0 + c div 0x40, 0x80 + c mod 0x40]"
        by (simp add: utf8_encode_char_def)
      with d2[OF True] m(1) show ?thesis by simp
    next
      case False
      note c2 = False
      show ?thesis
      proof (cases "c < 0x10000")
        case True
        with assms(2) c1 c2 have "bs = [0xE0 + c div 0x1000, 0x80 + c div 0x40 mod 0x40, 0x80 + c mod 0x40]"
          by (simp add: utf8_encode_char_def split: if_splits)
        with d3[OF True] m show ?thesis by simp
      next
        case False
        with assms(2) c1 c2 have "bs = [0xF0 + c div 0x40000, 0x80 + c div 0x1000 mod 0x40,
                0x80 + c div 0x40 mod 0x40, 0x80 + c mod 0x40]"
          by (simp add: utf8_encode_char_def)
        with d4 m show ?thesis by simp
      qed
    qed
  qed
qed

lemma utf8_decode_encode_char:
  assumes "scalar_value c"
  shows "\<exists>bs. utf8_encode_char c = Inr bs \<and> (\<forall>b \<in> set bs. b < 256) \<and>
              (\<forall>rest. utf8_decode_replace (bs @ rest) = c # utf8_decode_replace rest)"
proof -
  from assms have r: "c < 0x110000" and s: "\<not> (0xD800 \<le> c \<and> c < 0xE000)"
    by (simp_all add: scalar_value_def)
  have "\<exists>bs. utf8_encode_char c = Inr bs"
    using s by (simp add: utf8_encode_char_def)
  then obtain bs where e: "utf8_encode_char c = Inr bs" ..
  have "\<forall>rest. utf8_decode_replace (bs @ rest) = c # utf8_decode_replace rest"
  proof (cases "c < 0x80")
    case True
    with e have "bs = [c]" by (simp add: utf8_encode_char_def)
    then show ?thesis using True by (simp add: decode_1 del: utf8_decode_replace.simps)
  next
    case False
    note c1 = False
    show ?thesis
    proof (cases "c < 0x800")
      case True
      with e c1 have "bs = [0xC0 + c div 0x40, 0x80 + c mod 0x40]"
        by (simp add: utf8_encode_char_def)
      then show ?thesis using True c1 by (simp add: decode_2 del: utf8_decode_replace.simps)
    next
      case False
      note c2 = False
      show ?thesis
      proof (cases "c < 0x10000")
        case True
        with e c1 c2 s have "bs = [0xE0 + c div 0x1000, 0x80 + c div 0x40 mod 0x40, 0x80 + c mod 0x40]"
          by (simp add: utf8_encode_char_def)
        then show ?thesis using True c2 s by (simp add: decode_3 del: utf8_decode_replace.simps)
      next
        case False
        with e c1 c2 have "bs = [0xF0 + c div 0x40000, 0x80 + c div 0x1000 mod 0x40,
                0x80 + c div 0x40 mod 0x40, 0x80 + c mod 0x40]"
          by (simp add: utf8_encode_char_def)
        then show ?thesis using False r by (simp add: decode_4 del: utf8_decode_replace.simps)
      qed
    qed
  qed
  with e utf8_encode_char_bytes[OF r e] show ?thesis by blast
qed

lemma map_unat_of_nat:
  "\<forall>b \<in> set bs. b < 256 \<Longrightarrow> map unat (map of_nat bs :: byte list) = bs"
proof (induction bs)
  case Nil
  show ?case by simp
next
  case (Cons b bs)
  then have "b < 256" by simp
  then have "unat (of_nat b :: byte) = b"
    by (simp add: unat_of_nat)
  with Cons show ?case by simp
qed

lemma str_encode_roundtrip:
  "encodable t \<Longrightarrow> \<exists>bs. str_encode t = Inr bs \<and> bytes_decode bs = t"
proof (induction t)
  case Nil
  show ?case by (simp add: bytes_decode_def)
next
  case (Cons c cs)
  from Cons.prems have sc: "scalar_value c" and ecs: "encodable cs"
    by (simp_all add: encodable_def)
  from Cons.IH[OF ecs] obtain r where r: "str_encode cs = Inr r" "bytes_decode r = cs"
    by blast
  from utf8_decode_encode_char[OF sc] obtain bs where
    bs: "utf8_encode_char c = Inr bs" "\<forall>b \<in> set bs. b < 256"
        "\<forall>rest. utf8_decode_replace (bs @ rest) = c # utf8_decode_replace rest"
    by blast
  have "str_encode (c # cs) = Inr (map of_nat bs @ r)"
    using bs(1) r(1) by simp
  moreover have "bytes_decode (map of_nat bs @ r) = c # cs"
  proof -
    have "map unat (map of_nat bs @ r) = bs @ map unat r"
      using map_unat_of_nat[OF bs(2)] by (simp only: map_append)
    then have "bytes_decode (map of_nat bs @ r) = utf8_decode_replace (bs @ map unat r)"
      by (simp only: bytes_decode_def)
    also have "\<dots> = c # utf8_decode_replace (map unat r)"
      using bs(3) by (rule spec)
    also have "\<dots> = c # cs"
      using r(2) by (simp only: bytes_decode_def)
    finally show ?thesis .
  qed
  ultimately show ?case by blast
qed

section \<open>The base vocabulary\<close>

lemma length_byte_vocab: "length byte_vocab = 256"
  by (simp add: byte_vocab_def)

lemma keys_byte_vocab: "map fst byte_vocab = map int [0 ..< 256]"
  by (simp add: byte_vocab_def comp_def)

lemma update_fresh: "k \<notin> fst ` set al \<Longrightarrow> AList.update k v al = al @ [(k, v)]"
  by (induction al) auto

lemma dense_keys_fresh: "dense_keys v \<Longrightarrow> int (length v) \<notin> fst ` set v"
proof -
  assume "dense_keys v"
  then have "fst ` set v = int ` {0 ..< length v}"
    unfolding dense_keys_def by (metis atLeastLessThan_upt list.set_map)
  then show ?thesis by auto
qed

lemma dense_keys_append:
  "dense_keys v \<Longrightarrow> dense_keys (v @ [(int (length v), x)])"
  by (simp add: dense_keys_def)

lemma add_token_append:
  "dense_keys v \<Longrightarrow> add_token v token = v @ [(int (length v), token)]"
  unfolding add_token_def by (rule update_fresh) (rule dense_keys_fresh)

lemma dense_byte_vocab: "dense_keys byte_vocab"
  by (simp add: dense_keys_def keys_byte_vocab length_byte_vocab)

lemma init_vocab_fold: "foldl add_token byte_vocab special_tokens = base_vocab"
proof -
  have 1: "add_token byte_vocab pad_token = byte_vocab @ [(256, pad_token)]"
    using add_token_append[OF dense_byte_vocab] by (simp add: length_byte_vocab)
  have d1: "dense_keys (byte_vocab @ [(256, pad_token)])"
    using dense_keys_append[OF dense_byte_vocab] by (simp add: length_byte_vocab)
  have 2: "add_token (byte_vocab @ [(256, pad_token)]) bos_token
             = byte_vocab @ [(256, pad_token), (257, bos_token)]"
    using add_token_append[OF d1] by (simp add: length_byte_vocab)
  have d2: "dense_keys (byte_vocab @ [(256, pad_token), (257, bos_token)])"
    using dense_keys_append[OF d1] by (simp add: length_byte_vocab)
  have 3: "add_token (byte_vocab @ [(256, pad_token), (257, bos_token)]) eos_token
             = byte_vocab @ [(256, pad_token), (257, bos_token), (258, eos_token)]"
    using add_token_append[OF d2] by (simp add: length_byte_vocab)
  show ?thesis
    by (simp add: special_tokens_def base_vocab_def 1 2 3)
qed

lemma length_base_vocab: "length base_vocab = 259"
  by (simp add: base_vocab_def length_byte_vocab)

lemma dense_base_vocab: "dense_keys base_vocab"
proof -
  have "map fst base_vocab = map int [0 ..< 256] @ [256, 257, 258]"
    by (simp add: base_vocab_def keys_byte_vocab)
  also have "\<dots> = map int ([0 ..< 256] @ [256, 257, 258])" by simp
  also have "[0 ..< 256] @ [256, 257, 258] = [0 ..< (259::nat)]"
    by (simp add: upt_rec[of 256] upt_rec[of 257] upt_rec[of 258] upt_add_eq_append[of 0 256 3, simplified])
  finally show ?thesis by (simp add: dense_keys_def length_base_vocab)
qed

lemma map_of_token_to_id_fold:
  "map_of (foldl (\<lambda>d (x, y). AList.update y x d) d v) t =
     (case map_of (rev (map (\<lambda>(x, y). (y, x)) v)) t of
        Some i \<Rightarrow> Some i
      | None \<Rightarrow> map_of d t)"
proof (induction v arbitrary: d)
  case Nil
  show ?case by simp
next
  case (Cons a v)
  obtain x y where a: "a = (x, y)" by (cases a)
  show ?case
    unfolding a
    by (simp add: Cons.IH update_conv' map_add_def split: option.splits)
qed

lemma map_of_token_to_id:
  "map_of (token_to_id v) t = map_of (rev (map (\<lambda>(x, y). (y, x)) v)) t"
  unfolding token_to_id_def map_of_token_to_id_fold by (simp split: option.splits)

lemma tokens_distinct:
  "pad_token \<noteq> bos_token" "pad_token \<noteq> eos_token" "bos_token \<noteq> eos_token"
  by (simp_all add: pad_token_def bos_token_def eos_token_def)

lemma token_ids:
  "map_of (token_to_id base_vocab) pad_token = Some 256"
  "map_of (token_to_id base_vocab) bos_token = Some 257"
  "map_of (token_to_id base_vocab) eos_token = Some 258"
  using tokens_distinct by (simp_all add: map_of_token_to_id base_vocab_def)

lemma ByteTokenizer_init_vocab_eq:
  "ByteTokenizer_init_vocab self =
     (Inr (), self\<lparr>vocab := base_vocab, pad_token_id := Some 256,
                     bos_token_id := Some 257, eos_token_id := Some 258\<rparr>)"
  by (simp add: ByteTokenizer_init_vocab_def init_vocab_fold token_ids)

lemma BpeTokenizer_init_vocab_eq:
  "BpeTokenizer_init_vocab self =
     (Inr (), self\<lparr>vocab := base_vocab, pad_token_id := Some 256,
                     bos_token_id := Some 257, eos_token_id := Some 258, merges := []\<rparr>)"
  by (simp add: BpeTokenizer_init_vocab_def ByteTokenizer_init_vocab_eq)

section \<open>Lookups in the vocabulary\<close>

lemma map_of_upt_map:
  "n < m \<Longrightarrow> map_of (map (\<lambda>idx. (int idx, g idx)) [0 ..< m]) (int n) = Some (g n)"
proof (induction m)
  case 0
  then show ?case by simp
next
  case (Suc m)
  show ?case
  proof (cases "n < m")
    case True
    with Suc.IH show ?thesis by (simp add: map_of_append)
  next
    case False
    with Suc.prems have nm: "n = m" by simp
    have e: "fst ` set (map (\<lambda>idx. (int idx, g idx)) [0 ..< m]) = int ` {0 ..< m}"
      by (simp add: image_image)
    have "int m \<notin> int ` {0 ..< m}" by auto
    then have "int m \<notin> fst ` set (map (\<lambda>idx. (int idx, g idx)) [0 ..< m])"
      unfolding e .
    then have "map_of (map (\<lambda>idx. (int idx, g idx)) [0 ..< m]) (int m) = None"
      by (rule iffD2[OF map_of_eq_None_iff])
    then show ?thesis unfolding nm by (simp add: map_add_def)
  qed
qed

lemma map_of_byte_vocab: "map_of byte_vocab (uint (b :: byte)) = Some [b]"
proof -
  have l: "unat b < 256" using unsigned_less[of b, where 'a = nat] by simp
  have "map_of byte_vocab (int (unat b)) = Some [of_nat (unat b)]"
    unfolding byte_vocab_def using l by (rule map_of_upt_map)
  then show ?thesis by simp
qed

lemma map_of_append_left: "map_of xs k = Some x \<Longrightarrow> map_of (xs @ ys) k = Some x"
  by (simp add: map_add_def)

lemma map_of_append_right: "map_of xs k = None \<Longrightarrow> map_of (xs @ ys) k = map_of ys k"
  by (simp add: map_add_def split: option.splits)

lemma bytes_ok_base_vocab: "bytes_ok base_vocab"
  unfolding bytes_ok_def base_vocab_def
  by (intro allI map_of_append_left map_of_byte_vocab)

lemma bytes_ok_append: "bytes_ok v \<Longrightarrow> bytes_ok (v @ w)"
  unfolding bytes_ok_def by (intro allI map_of_append_left) simp

lemma merges_ok_empty: "merges_ok v []"
  by (simp add: merges_ok_def)

lemma set_update_cases:
  "e \<in> set (AList.update k x al) \<Longrightarrow> e = (k, x) \<or> e \<in> set al"
  by (induction al) (auto split: if_splits)

lemma length_update_ge: "length al \<le> length (AList.update k x al)"
  by (induction al) auto

lemma ids_ok_lookup: "ids_ok v ids \<Longrightarrow> i \<in> set ids \<Longrightarrow> \<exists>b. map_of v i = Some b"
proof -
  assume "ids_ok v ids" "i \<in> set ids"
  then have "i \<in> fst ` set v" by (auto simp: ids_ok_def)
  then have "map_of v i \<noteq> None" by (simp add: map_of_eq_None_iff)
  then show ?thesis by auto
qed

lemma in_zip_tl: "p \<in> set (zip ids (tl ids)) \<Longrightarrow> fst p \<in> set ids \<and> snd p \<in> set ids"
proof -
  assume a: "p \<in> set (zip ids (tl ids))"
  obtain x y where p: "p = (x, y)" by (cases p)
  from a p have "x \<in> set ids" by (auto dest: set_zip_leftD)
  moreover from a p have "y \<in> set (tl ids)" by (auto dest: set_zip_rightD)
  then have "y \<in> set ids" by (rule list.set_sel(2)[rotated]) (use a in auto)
  ultimately show ?thesis using p by simp
qed

lemma py_max_mem: "py_max key xs = Inr b \<Longrightarrow> b \<in> set xs"
proof -
  assume "py_max key xs = Inr b"
  then have "\<exists>i. first_max key xs i \<and> xs ! i = b" by (rule py_max_first_max)
  then obtain i where "i < length xs" "xs ! i = b" by (auto simp: first_max_def)
  then show ?thesis by (auto simp: in_set_conv_nth)
qed

lemma best_pair_occurs:
  assumes "best_pair (count_pairs data) = Inr (pair, freq)"
  shows "\<exists>ids \<in> set data. pair \<in> set (zip ids (tl ids))"
proof -
  from assms have "(pair, freq) \<in> set (count_pairs data)"
    unfolding best_pair_def by (rule py_max_mem)
  then have "pair \<in> fst ` set (count_pairs data)" by (rule image_eqI[rotated]) simp
  then show ?thesis unfolding keys_count_pairs by blast
qed

section \<open>One pass of the training loop\<close>

lemma train_body_raise:
  "best_pair (count_pairs (snd st)) = Inl e \<Longrightarrow> train_body st = Raise e st"
  by (simp add: train_body_def Let_def)

lemma train_body_break:
  "best_pair (count_pairs (snd st)) = Inr (pair, 1) \<Longrightarrow> train_body st = Break st"
  by (simp add: train_body_def Let_def)

lemma train_body_next:
  assumes inv: "train_inv st"
    and best: "best_pair (count_pairs (snd st)) = Inr (pair, freq)"
    and freq: "freq \<noteq> 1"
  shows "\<exists>b0 b1.
           map_of (vocab (fst st)) (fst pair) = Some b0 \<and>
           map_of (vocab (fst st)) (snd pair) = Some b1 \<and>
           train_body st =
             Next ((fst st)\<lparr>merges := AList.update pair (int (length (vocab (fst st)))) (merges (fst st)),
                             vocab := vocab (fst st) @ [(int (length (vocab (fst st))), b0 @ b1)]\<rparr>,
                   map (\<lambda>ids. merge ids pair (int (length (vocab (fst st))))) (snd st))"
proof -
  from best_pair_occurs[OF best] obtain ids where
    ids: "ids \<in> set (snd st)" and p: "pair \<in> set (zip ids (tl ids))"
    by blast
  from inv ids have ok: "ids_ok (vocab (fst st)) ids"
    by (simp add: train_inv_def)
  from in_zip_tl[OF p] have m: "fst pair \<in> set ids" "snd pair \<in> set ids"
    by simp_all
  from ids_ok_lookup[OF ok m(1)] obtain b0 where b0: "map_of (vocab (fst st)) (fst pair) = Some b0" ..
  from ids_ok_lookup[OF ok m(2)] obtain b1 where b1: "map_of (vocab (fst st)) (snd pair) = Some b1" ..
  from inv have d: "dense_keys (vocab (fst st))"
    by (simp add: train_inv_def tok_inv_def)
  have u: "AList.update (int (length (vocab (fst st)))) (b0 @ b1) (vocab (fst st))
             = vocab (fst st) @ [(int (length (vocab (fst st))), b0 @ b1)]"
    by (rule update_fresh) (rule dense_keys_fresh[OF d])
  have "train_body st =
             Next ((fst st)\<lparr>merges := AList.update pair (int (length (vocab (fst st)))) (merges (fst st)),
                             vocab := vocab (fst st) @ [(int (length (vocab (fst st))), b0 @ b1)]\<rparr>,
                   map (\<lambda>ids. merge ids pair (int (length (vocab (fst st))))) (snd st))"
    using best freq b0 b1 by (simp add: train_body_def Let_def u)
  with b0 b1 show ?thesis by blast
qed

lemma best_pair_error: "best_pair cnt = Inl e \<Longrightarrow> e = ValueError \<and> cnt = []"
  by (cases cnt) (simp_all add: best_pair_def)

lemma train_body_step:
  assumes inv: "train_inv st"
  shows "(train_body st = Raise ValueError st \<and> count_pairs (snd st) = []) \<or>
         (train_body st = Break st \<and> (\<exists>pair. best_pair (count_pairs (snd st)) = Inr (pair, 1))) \<or>
         (\<exists>st'. train_body st = Next st' \<and> train_inv st' \<and>
                length (vocab (fst st')) = Suc (length (vocab (fst st))))"
proof (cases "best_pair (count_pairs (snd st))")
  case (Inl e)
  from best_pair_error[OF Inl] train_body_raise[OF Inl] show ?thesis by simp
next
  case (Inr w)
  obtain pair freq where w: "w = (pair, freq)" by (cases w)
  note best = Inr[unfolded w]
  show ?thesis
  proof (cases "freq = 1")
    case True
    with best train_body_break[of st pair] show ?thesis by auto
  next
    case False
    let ?v = "vocab (fst st)"
    let ?n = "int (length ?v)"
    from train_body_next[OF inv best False] obtain b0 b1 where
      b0: "map_of ?v (fst pair) = Some b0" and b1: "map_of ?v (snd pair) = Some b1" and
      tb: "train_body st =
             Next ((fst st)\<lparr>merges := AList.update pair ?n (merges (fst st)),
                             vocab := ?v @ [(?n, b0 @ b1)]\<rparr>,
                   map (\<lambda>ids. merge ids pair ?n) (snd st))"
      by blast
    let ?v' = "?v @ [(?n, b0 @ b1)]"
    let ?m' = "AList.update pair ?n (merges (fst st))"
    from inv have d: "dense_keys ?v" and bo: "bytes_ok ?v" and mo: "merges_ok ?v (merges (fst st))"
      and io: "\<forall>ids \<in> set (snd st). ids_ok ?v ids"
      by (simp_all add: train_inv_def tok_inv_def)
    have d': "dense_keys ?v'" using d by (rule dense_keys_append)
    have bo': "bytes_ok ?v'" using bo by (rule bytes_ok_append)
    have fresh: "map_of ?v ?n = None"
      using dense_keys_fresh[OF d] by (rule iffD2[OF map_of_eq_None_iff])
    have new: "map_of ?v' ?n = Some (b0 @ b1)"
      using map_of_append_right[OF fresh, of "[(?n, b0 @ b1)]"] by simp
    have mo': "merges_ok ?v' ?m'"
      unfolding merges_ok_def
    proof
      fix e assume "e \<in> set ?m'"
      then have "e = (pair, ?n) \<or> e \<in> set (merges (fst st))" by (rule set_update_cases)
      then show "\<exists>c0 c1. map_of ?v' (fst (fst e)) = Some c0 \<and> map_of ?v' (snd (fst e)) = Some c1 \<and>
                   map_of ?v' (snd e) = Some (c0 @ c1)"
      proof
        assume e: "e = (pair, ?n)"
        have "map_of ?v' (fst pair) = Some b0" using b0 by (rule map_of_append_left)
        moreover have "map_of ?v' (snd pair) = Some b1" using b1 by (rule map_of_append_left)
        ultimately show ?thesis using new unfolding e by simp
      next
        assume "e \<in> set (merges (fst st))"
        with mo obtain c0 c1 where c: "map_of ?v (fst (fst e)) = Some c0"
          "map_of ?v (snd (fst e)) = Some c1" "map_of ?v (snd e) = Some (c0 @ c1)"
          unfolding merges_ok_def by blast
        have "map_of ?v' (fst (fst e)) = Some c0" using c(1) by (rule map_of_append_left)
        moreover have "map_of ?v' (snd (fst e)) = Some c1" using c(2) by (rule map_of_append_left)
        moreover have "map_of ?v' (snd e) = Some (c0 @ c1)" using c(3) by (rule map_of_append_left)
        ultimately show ?thesis by blast
      qed
    qed
    have io': "\<forall>ids \<in> set (map (\<lambda>ids. merge ids pair ?n) (snd st)). ids_ok ?v' ids"
    proof
      fix ids' assume "ids' \<in> set (map (\<lambda>ids. merge ids pair ?n) (snd st))"
      then obtain ids where ids: "ids \<in> set (snd st)" and e: "ids' = merge ids pair ?n"
        by auto
      from io ids have "set ids \<subseteq> fst ` set ?v" by (simp add: ids_ok_def)
      moreover have "set ids' \<subseteq> insert ?n (set ids)"
        unfolding e merge_substitute by (rule set_substitute)
      ultimately show "ids_ok ?v' ids'" by (auto simp: ids_ok_def)
    qed
    let ?st' = "((fst st)\<lparr>merges := ?m', vocab := ?v'\<rparr>, map (\<lambda>ids. merge ids pair ?n) (snd st))"
    have "train_inv ?st'"
      using d' bo' mo' io' by (simp add: train_inv_def tok_inv_def)
    moreover have "length (vocab (fst ?st')) = Suc (length ?v)" by simp
    ultimately show ?thesis using tb by blast
  qed
qed

section \<open>The training loop\<close>

lemma train_body_mono:
  "(train_body st = Raise e st' \<longrightarrow> vocab_len st' = vocab_len st) \<and>
   (train_body st = Break st' \<longrightarrow> st' = st) \<and>
   (train_body st = Next st' \<longrightarrow> vocab_len st \<le> vocab_len st')"
  using length_update_ge[of "vocab (fst st)"]
  by (auto simp: train_body_def Let_def vocab_len_def split: sum.splits prod.splits if_splits option.splits)

lemma train_loop_ge: "vocab_len st \<le> vocab_len (snd (train_loop n st))"
proof (induction n arbitrary: st)
  case 0
  show ?case by simp
next
  case (Suc n)
  show ?case
  proof (cases "train_body st")
    case (Raise e st1)
    with train_body_mono[of st e st1] show ?thesis by simp
  next
    case (Break st1)
    with train_body_mono[of st _ st1] show ?thesis by simp
  next
    case (Next st1)
    with train_body_mono[of st _ st1] have "vocab_len st \<le> vocab_len st1" by simp
    also have "\<dots> \<le> vocab_len (snd (train_loop n st1))" by (rule Suc.IH)
    finally show ?thesis using Next by simp
  qed
qed

lemma train_loop_mono:
  "vocab_len (snd (train_loop j st)) \<le> vocab_len (snd (train_loop (j + d) st))"
proof (induction j arbitrary: st)
  case 0
  show ?case using train_loop_ge[of st d] by simp
next
  case (Suc j)
  show ?case
  proof (cases "train_body st")
    case (Raise e st1)
    then show ?thesis by simp
  next
    case (Break st1)
    then show ?thesis by simp
  next
    case (Next st1)
    with Suc.IH[of st1] show ?thesis by simp
  qed
qed

lemma train_loop_inv:
  assumes "train_inv st"
  shows "train_inv (snd (train_loop n st)) \<and>
         vocab_len (snd (train_loop n st)) \<le> vocab_len st + n \<and>
         (fst (train_loop n st) = Inr () \<longrightarrow>
            vocab_len (snd (train_loop n st)) = vocab_len st + n \<or>
            (train_body (snd (train_loop n st)) = Break (snd (train_loop n st)) \<and>
             (\<exists>pair. best_pair (count_pairs (snd (snd (train_loop n st)))) = Inr (pair, 1)))) \<and>
         (fst (train_loop n st) \<noteq> Inr () \<longrightarrow>
            fst (train_loop n st) = Inl ValueError \<and>
            count_pairs (snd (snd (train_loop n st))) = [])"
  using assms
proof (induction n arbitrary: st)
  case 0
  then show ?case by simp
next
  case (Suc n)
  from train_body_step[OF Suc.prems]
  consider
    (stop_raise) "train_body st = Raise ValueError st" "count_pairs (snd st) = []"
  | (stop_break) "train_body st = Break st" "\<exists>pair. best_pair (count_pairs (snd st)) = Inr (pair, 1)"
  | (go_on) st' where "train_body st = Next st'" "train_inv st'"
      "length (vocab (fst st')) = Suc (length (vocab (fst st)))"
    by blast
  then show ?case
  proof cases
    case stop_raise
    then show ?thesis using Suc.prems by simp
  next
    case stop_break
    then show ?thesis using Suc.prems by simp
  next
    case go_on
    have l: "vocab_len st' = Suc (vocab_len st)"
      using go_on(3) by (simp add: vocab_len_def)
    have e: "train_loop (Suc n) st = train_loop n st'"
      using go_on(1) by simp
    show ?thesis
      unfolding e using Suc.IH[OF go_on(2)] unfolding l by simp
  qed
qed

lemma ids_ok_bytes: "bytes_ok v \<Longrightarrow> ids_ok v (map uint (bs :: bytes))"
proof -
  assume b: "bytes_ok v"
  have "uint x \<in> fst ` set v" for x :: byte
  proof -
    from b have "map_of v (uint x) = Some [x]" by (simp add: bytes_ok_def)
    then have "map_of v (uint x) \<noteq> None" by simp
    then show ?thesis by (simp add: map_of_eq_None_iff)
  qed
  then show ?thesis by (auto simp: ids_ok_def)
qed

lemma encode_texts_ok:
  "bytes_ok v \<Longrightarrow> encode_texts texts = Inr data \<Longrightarrow> \<forall>ids \<in> set data. ids_ok v ids"
proof (induction texts arbitrary: data)
  case Nil
  then show ?case by simp
next
  case (Cons t texts)
  from Cons.prems(2) obtain bs r where
    bs: "str_encode t = Inr bs" and r: "encode_texts texts = Inr r" and d: "data = map uint bs # r"
    by (auto simp: ByteTokenizer_encode_def split: sum.splits)
  from Cons.IH[OF Cons.prems(1) r] ids_ok_bytes[OF Cons.prems(1), of bs] show ?case
    unfolding d by simp
qed

lemma tok_inv_reset: "tok_inv (reset self)"
  by (simp add: tok_inv_def reset_def dense_base_vocab bytes_ok_base_vocab merges_ok_empty)

lemma vocab_reset: "vocab (reset self) = base_vocab" "merges (reset self) = []"
  by (simp_all add: reset_def)

lemma train_run_eq:
  "train_run texts max_vocab self =
     (if max_vocab \<le> 259 then (Inr (), (reset self, []))
      else case encode_texts texts of
             Inl e \<Rightarrow> (Inl e, (reset self, []))
           | Inr list_of_ids \<Rightarrow> train_loop (nat (max_vocab - 259)) (reset self, list_of_ids))"
  by (simp add: train_run_def BpeTokenizer_init_vocab_eq reset_def[symmetric] vocab_reset
      length_base_vocab split: sum.splits)

lemma train_run_inv: "train_inv (snd (train_run texts max_vocab self))"
proof -
  have e: "train_inv (reset self, [])"
    by (simp add: train_inv_def tok_inv_reset)
  show ?thesis
  proof (cases "max_vocab \<le> 259")
    case True
    then show ?thesis using e by (simp add: train_run_eq)
  next
    case False
    show ?thesis
    proof (cases "encode_texts texts")
      case (Inl err)
      then show ?thesis using e False by (simp add: train_run_eq)
    next
      case (Inr data)
      have "\<forall>ids \<in> set data. ids_ok (vocab (reset self)) ids"
        using bytes_ok_base_vocab Inr unfolding vocab_reset by (rule encode_texts_ok)
      then have "train_inv (reset self, data)"
        by (simp add: train_inv_def tok_inv_reset)
      then have "train_inv (snd (train_loop (nat (max_vocab - 259)) (reset self, data)))"
        using train_loop_inv by blast
      then show ?thesis using Inr False by (simp add: train_run_eq)
    qed
  qed
qed

lemma train_eq: "train texts max_vocab self =
   (fst (train_run texts max_vocab self), fst (snd (train_run texts max_vocab self)))"
  by (simp add: train_def split: prod.splits)

lemma tok_inv_train: "tok_inv (snd (train texts max_vocab self))"
  using train_run_inv[of texts max_vocab self] by (simp add: train_eq train_inv_def)

lemma BpeTokenizer_new_eq:
  "BpeTokenizer_new = (Inr (), reset \<lparr>pad_token_id = None, bos_token_id = None,
      eos_token_id = None, vocab = [], merges = []\<rparr>)"
  by (simp add: BpeTokenizer_new_def BpeTokenizer_init_vocab_eq reset_def)

lemma tok_inv_new: "tok_inv (snd BpeTokenizer_new)"
  by (simp add: BpeTokenizer_new_eq tok_inv_reset)

section \<open>The loop of encode\<close>

lemma zip_tl_nonempty: "1 < length ids \<Longrightarrow> zip ids (tl ids) \<noteq> []"
  by (cases ids; cases "tl ids") auto

lemma count_pairs_single_nonempty: "1 < length ids \<Longrightarrow> count_pairs [ids] \<noteq> []"
proof
  assume l: "1 < length ids" and e: "count_pairs [ids] = []"
  have "fst ` set (count_pairs [ids]) = set (zip ids (tl ids))"
    by (simp add: keys_count_pairs)
  with e have "set (zip ids (tl ids)) = {}" by simp
  with zip_tl_nonempty[OF l] show False by simp
qed

lemma encode_step:
  assumes "1 < length ids"
  shows "\<exists>pair freq. best_pair (count_pairs [ids]) = Inr (pair, freq) \<and>
           pair \<in> set (zip ids (tl ids)) \<and>
           (\<forall>idx. length (merge ids pair idx) < length ids)"
proof -
  from count_pairs_single_nonempty[OF assms]
  have "\<exists>w. best_pair (count_pairs [ids]) = Inr w"
    unfolding best_pair_def by (rule py_max_nonempty)
  then obtain pair freq where b: "best_pair (count_pairs [ids]) = Inr (pair, freq)"
    by (metis surj_pair)
  from best_pair_occurs[OF b] have p: "pair \<in> set (zip ids (tl ids))" by simp
  have "\<forall>idx. length (merge ids pair idx) < length ids"
    unfolding merge_substitute using length_substitute_less[OF p] by simp
  with b p show ?thesis by blast
qed

lemma encode_loop_rule:
  assumes init: "P ids"
    and step: "\<And>ids pair freq idx. P ids \<Longrightarrow> 1 < length ids \<Longrightarrow>
                 best_pair (count_pairs [ids]) = Inr (pair, freq) \<Longrightarrow>
                 pair \<in> set (zip ids (tl ids)) \<Longrightarrow>
                 map_of m pair = Some idx \<Longrightarrow> P (merge ids pair idx)"
  shows "\<exists>r. encode_loop m ids = Some (Inr r) \<and> P r \<and> length r \<le> length ids"
  using init
proof (induction "length ids" arbitrary: ids rule: less_induct)
  case less
  show ?case
  proof (cases "1 < length ids")
    case False
    then have "encode_loop m ids = Some (Inr ids)"
      by (subst encode_loop.simps) simp
    with less.prems show ?thesis by simp
  next
    case True
    from encode_step[OF True] obtain pair freq where
      b: "best_pair (count_pairs [ids]) = Inr (pair, freq)" and
      p: "pair \<in> set (zip ids (tl ids))" and
      l: "\<forall>idx. length (merge ids pair idx) < length ids"
      by blast
    show ?thesis
    proof (cases "map_of m pair")
      case None
      with True b have "encode_loop m ids = Some (Inr ids)"
        by (subst encode_loop.simps) simp
      with less.prems show ?thesis by simp
    next
      case (Some idx)
      with True b have e: "encode_loop m ids = encode_loop m (merge ids pair idx)"
        by (subst encode_loop.simps) simp
      from l have l': "length (merge ids pair idx) < length ids" by (rule spec)
      have "P (merge ids pair idx)"
        using less.prems True b p Some by (rule step)
      from less.hyps[OF l' this] obtain r where
        "encode_loop m (merge ids pair idx) = Some (Inr r)" "P r"
        "length r \<le> length (merge ids pair idx)"
        by blast
      with e l' show ?thesis by auto
    qed
  qed
qed

lemma join_substitute:
  assumes "map_of v a = Some b0" "map_of v b = Some b1" "map_of v idx = Some (b0 @ b1)"
  shows "join_vocab v (substitute ids (a, b) idx) = join_vocab v ids"
proof (induction ids rule: induct_list012)
  case 1
  show ?case by simp
next
  case (2 x)
  show ?case by simp
next
  case (3 x y rest)
  show ?case
  proof (cases "(x, y) = (a, b)")
    case True
    then have xy: "x = a" "y = b" by simp_all
    show ?thesis
      using assms 3(1) unfolding xy
      by (simp split: sum.splits)
  next
    case False
    have s: "substitute (x # y # rest) (a, b) idx = x # substitute (y # rest) (a, b) idx"
      by (simp only: substitute.simps False if_False)
    show ?thesis unfolding s join_vocab.simps(2)[of v x] 3(2) by (rule refl)
  qed
qed

lemma join_merge:
  assumes "merges_ok v m" "(pair, idx) \<in> set m"
  shows "join_vocab v (merge ids pair idx) = join_vocab v ids"
proof -
  from assms obtain b0 b1 where
    "map_of v (fst pair) = Some b0" "map_of v (snd pair) = Some b1" "map_of v idx = Some (b0 @ b1)"
    unfolding merges_ok_def by fastforce
  then have "join_vocab v (substitute ids (fst pair, snd pair) idx) = join_vocab v ids"
    by (rule join_substitute)
  then show ?thesis by (simp add: merge_substitute)
qed

lemma ids_ok_merge:
  assumes "merges_ok v m" "(pair, idx) \<in> set m" "ids_ok v ids"
  shows "ids_ok v (merge ids pair idx)"
proof -
  from assms(1,2) have "map_of v idx \<noteq> None" unfolding merges_ok_def by fastforce
  then have "idx \<in> fst ` set v" by (simp add: map_of_eq_None_iff)
  moreover have "set (merge ids pair idx) \<subseteq> insert idx (set ids)"
    unfolding merge_substitute by (rule set_substitute)
  ultimately show ?thesis using assms(3) by (auto simp: ids_ok_def)
qed

lemma join_bytes: "bytes_ok v \<Longrightarrow> join_vocab v (map uint (bs :: bytes)) = Inr bs"
  by (induction bs) (simp_all add: bytes_ok_def)

lemma encode_loop_ok:
  assumes "merges_ok v m" "ids_ok v ids"
  shows "\<exists>r. encode_loop m ids = Some (Inr r) \<and>
             (ids_ok v r \<and> join_vocab v r = join_vocab v ids) \<and> length r \<le> length ids"
proof (rule encode_loop_rule[where P = "\<lambda>r. ids_ok v r \<and> join_vocab v r = join_vocab v ids"])
  show "ids_ok v ids \<and> join_vocab v ids = join_vocab v ids" using assms(2) by simp
next
  fix ids' pair freq idx
  assume p: "ids_ok v ids' \<and> join_vocab v ids' = join_vocab v ids"
    and m: "map_of m pair = Some idx"
  from m have mem: "(pair, idx) \<in> set m" by (rule map_of_SomeD)
  show "ids_ok v (merge ids' pair idx) \<and> join_vocab v (merge ids' pair idx) = join_vocab v ids"
    using ids_ok_merge[OF assms(1) mem, of ids'] join_merge[OF assms(1) mem, of ids'] p by simp
qed

lemma encode_loop_terminates:
  "\<exists>r. encode_loop m ids = Some (Inr r) \<and> length r \<le> length ids"
  using encode_loop_rule[where P = "\<lambda>r. True" and ids = ids and m = m] by simp

lemma join_ok: "ids_ok v ids \<Longrightarrow> \<exists>bs. join_vocab v ids = Inr bs"
proof (induction ids)
  case Nil
  show ?case by simp
next
  case (Cons i ids)
  from Cons.prems have "ids_ok v [i]" "ids_ok v ids" by (simp_all add: ids_ok_def)
  from ids_ok_lookup[OF this(1), of i] Cons.IH[OF this(2)] show ?case by auto
qed

lemma join_error:
  "join_vocab v ids = Inl e \<longleftrightarrow> e = KeyError \<and> (\<exists>i \<in> set ids. map_of v i = None)"
  by (induction ids) (auto split: option.splits sum.splits)

section \<open>Training and encoding on a concrete corpus, and the round trip\<close>

lemma train_loop_pos:
  "0 < n \<Longrightarrow> train_loop n st =
     (case train_body st of
        Raise e st1 \<Rightarrow> (Inl e, st1)
      | Break st1 \<Rightarrow> (Inr (), st1)
      | Next st1 \<Rightarrow> train_loop (n - 1) st1)"
  by (cases n) (simp_all split: step.splits)

lemma map_of_base_vocab_97: "map_of base_vocab 97 = Some [97]"
proof -
  have "map_of base_vocab (uint (97 :: byte)) = Some [97]"
    using bytes_ok_base_vocab unfolding bytes_ok_def by (rule spec)
  then show ?thesis by simp
qed

lemma update_base_vocab:
  "AList.update 259 x base_vocab = base_vocab @ [(259, x)]"
proof -
  have "int (length base_vocab) \<notin> fst ` set base_vocab"
    using dense_base_vocab by (rule dense_keys_fresh)
  then have "259 \<notin> fst ` set base_vocab" by (simp add: length_base_vocab)
  then show ?thesis by (rule update_fresh)
qed

lemma encode_aaaa: "ByteTokenizer_encode [97, 97, 97, 97] = Inr [97, 97, 97, 97]"
  by (simp add: ByteTokenizer_encode_def utf8_encode_char_def)

lemma encode_aa: "ByteTokenizer_encode [97, 97] = Inr [97, 97]"
  by (simp add: ByteTokenizer_encode_def utf8_encode_char_def)

lemma count_aaaa: "count_pairs [[97, 97, 97, 97]] = [((97, 97), 3)]"
  by (simp add: count_pairs_def count_seq_def count_step_def dict_get_def)

lemma count_aa: "count_pairs [[97, 97]] = [((97, 97), 1)]"
  by (simp add: count_pairs_def count_seq_def count_step_def dict_get_def)

lemma count_259: "count_pairs [[259, 259]] = [((259, 259), 1)]"
  by (simp add: count_pairs_def count_seq_def count_step_def dict_get_def)

lemma train_body_aaaa_1:
  "train_body (reset self, [[97, 97, 97, 97]]) = Next (trained_aaaa self, [[259, 259]])"
  by (simp add: train_body_def Let_def count_aaaa best_pair_def vocab_reset length_base_vocab
      map_of_base_vocab_97 update_base_vocab merge_substitute trained_aaaa_def)

lemma train_body_aaaa_2:
  "train_body (trained_aaaa self, [[259, 259]]) = Break (trained_aaaa self, [[259, 259]])"
  by (rule train_body_break[of _ "(259, 259)"]) (simp add: count_259 best_pair_def)

lemma train_run_aaaa:
  "train_run [[97, 97, 97, 97]] 300 self = (Inr (), (trained_aaaa self, [[259, 259]]))"
proof -
  have "train_run [[97, 97, 97, 97]] 300 self = train_loop 41 (reset self, [[97, 97, 97, 97]])"
    by (simp add: train_run_eq encode_aaaa)
  also have "\<dots> = train_loop 40 (trained_aaaa self, [[259, 259]])"
    by (simp add: train_loop_pos train_body_aaaa_1)
  also have "\<dots> = (Inr (), (trained_aaaa self, [[259, 259]]))"
    by (simp add: train_loop_pos train_body_aaaa_2)
  finally show ?thesis .
qed

lemma train_aaaa: "train [[97, 97, 97, 97]] 300 self = (Inr (), trained_aaaa self)"
  by (simp add: train_eq train_run_aaaa)

lemma encode_trained_aa: "encode (trained_aaaa self) [97, 97] = Some (Inr [259])"
proof -
  have "encode (trained_aaaa self) [97, 97] = encode_loop [((97, 97), 259)] [97, 97]"
    by (simp add: encode_def encode_aa trained_aaaa_def)
  also have "\<dots> = encode_loop [((97, 97), 259)] [259]"
    by (subst encode_loop.simps) (simp add: count_aa best_pair_def merge_substitute)
  also have "\<dots> = Some (Inr [259])"
    by (subst encode_loop.simps) simp
  finally show ?thesis .
qed

lemma decode_ok:
  assumes "bytes_ok (vocab self)" "str_encode t = Inr bs" "bytes_decode bs = t"
    and "join_vocab (vocab self) ids = join_vocab (vocab self) (map uint bs)"
  shows "decode self ids = Inr t"
  using assms join_bytes[OF assms(1), of bs] by (simp add: decode_def)

lemma vocab_ByteTokenizer_init: "vocab (snd (ByteTokenizer_init_vocab self)) = base_vocab"
  by (simp add: ByteTokenizer_init_vocab_eq)

lemma roundtrip_bpe:
  assumes "encodable t" "tok_inv self"
  shows "\<exists>ids. encode self t = Some (Inr ids) \<and> decode self ids = Inr t \<and>
               ids_ok (vocab self) ids"
proof -
  from str_encode_roundtrip[OF assms(1)] obtain bs where
    bs: "str_encode t = Inr bs" "bytes_decode bs = t" by blast
  from assms(2) have b: "bytes_ok (vocab self)" and m: "merges_ok (vocab self) (merges self)"
    by (simp_all add: tok_inv_def)
  have e: "encode self t = encode_loop (merges self) (map uint bs)"
    using bs(1) by (simp add: encode_def ByteTokenizer_encode_def)
  from encode_loop_ok[OF m ids_ok_bytes[OF b, of bs]] obtain r where
    r: "encode_loop (merges self) (map uint bs) = Some (Inr r)" "ids_ok (vocab self) r"
       "join_vocab (vocab self) r = join_vocab (vocab self) (map uint bs)"
    by blast
  have "decode self r = Inr t" using b bs r(3) by (rule decode_ok)
  with e r show ?thesis by simp
qed

lemma encode_ids_ok:
  assumes "tok_inv self" "encode self t = Some (Inr ids)"
  shows "ids_ok (vocab self) ids"
proof (cases "ByteTokenizer_encode t")
  case (Inl e)
  with assms(2) show ?thesis by (simp add: encode_def)
next
  case (Inr ids0)
  then have "\<exists>bs :: bytes. ids0 = map uint bs"
    by (auto simp: ByteTokenizer_encode_def split: sum.splits)
  then obtain bs :: bytes where ids0: "ids0 = map uint bs" ..
  from assms(1) have b: "bytes_ok (vocab self)" and m: "merges_ok (vocab self) (merges self)"
    by (simp_all add: tok_inv_def)
  from encode_loop_ok[OF m ids_ok_bytes[OF b, of bs]] obtain r where
    r: "encode_loop (merges self) (map uint bs) = Some (Inr r)" "ids_ok (vocab self) r"
    by blast
  from assms(2) Inr ids0 have "encode_loop (merges self) (map uint bs) = Some (Inr ids)"
    by (simp add: encode_def)
  with r show ?thesis by simp
qed

lemma get_vocab_size_train:
  "get_vocab_size (snd (train texts max_vocab self))
     = int (vocab_len (snd (train_run texts max_vocab self)))"
  by (simp add: train_eq get_vocab_size_def vocab_len_def)

lemma vocab_len_reset: "vocab_len (reset self, data) = 259"
  by (simp add: vocab_len_def vocab_reset length_base_vocab)

lemma train_run_size:
  "int (vocab_len (snd (train_run texts max_vocab self))) \<le> max max_vocab 259"
proof (cases "max_vocab \<le> 259")
  case True
  then show ?thesis by (simp add: train_run_eq vocab_len_reset)
next
  case False
  show ?thesis
  proof (cases "encode_texts texts")
    case (Inl e)
    with False show ?thesis by (simp add: train_run_eq vocab_len_reset)
  next
    case (Inr data)
    have "\<forall>ids \<in> set data. ids_ok (vocab (reset self)) ids"
      using bytes_ok_base_vocab Inr unfolding vocab_reset by (rule encode_texts_ok)
    then have inv: "train_inv (reset self, data)"
      by (simp add: train_inv_def tok_inv_reset)
    have "vocab_len (snd (train_loop (nat (max_vocab - 259)) (reset self, data)))
            \<le> vocab_len (reset self, data) + nat (max_vocab - 259)"
      using train_loop_inv[OF inv] by blast
    then show ?thesis using False Inr by (simp add: train_run_eq vocab_len_reset)
  qed
qed

lemma train_run_early:
  assumes ok: "fst (train_run texts max_vocab self) = Inr ()"
    and less: "int (vocab_len (snd (train_run texts max_vocab self))) < max_vocab"
  shows "train_body (snd (train_run texts max_vocab self))
           = Break (snd (train_run texts max_vocab self)) \<and>
         (\<exists>pair. best_pair (count_pairs (snd (snd (train_run texts max_vocab self))))
                   = Inr (pair, 1))"
proof -
  have big: "\<not> max_vocab \<le> 259"
  proof
    assume "max_vocab \<le> 259"
    then have "vocab_len (snd (train_run texts max_vocab self)) = 259"
      by (simp add: train_run_eq vocab_len_reset)
    with less \<open>max_vocab \<le> 259\<close> show False by simp
  qed
  show ?thesis
  proof (cases "encode_texts texts")
    case (Inl e)
    with big ok show ?thesis by (simp add: train_run_eq)
  next
    case (Inr data)
    let ?n = "nat (max_vocab - 259)"
    have run: "train_run texts max_vocab self = train_loop ?n (reset self, data)"
      using big Inr by (simp add: train_run_eq)
    have "\<forall>ids \<in> set data. ids_ok (vocab (reset self)) ids"
      using bytes_ok_base_vocab Inr unfolding vocab_reset by (rule encode_texts_ok)
    then have inv: "train_inv (reset self, data)"
      by (simp add: train_inv_def tok_inv_reset)
    from train_loop_inv[OF inv, of ?n] ok
    have "vocab_len (snd (train_loop ?n (reset self, data))) = vocab_len (reset self, data) + ?n \<or>
            (train_body (snd (train_loop ?n (reset self, data))) = Break (snd (train_loop ?n (reset self, data))) \<and>
             (\<exists>pair. best_pair (count_pairs (snd (snd (train_loop ?n (reset self, data))))) = Inr (pair, 1)))"
      unfolding run by blast
    moreover have "vocab_len (snd (train_loop ?n (reset self, data))) \<noteq> vocab_len (reset self, data) + ?n"
      using less big unfolding run by (simp add: vocab_len_reset)
    ultimately show ?thesis unfolding run by blast
  qed
qed

lemma train_loop_mono_le:
  "j \<le> k \<Longrightarrow> vocab_len (snd (train_loop j st)) \<le> vocab_len (snd (train_loop k st))"
  using train_loop_mono[of j st "k - j"] by simp

lemma size_trained_aaaa: "get_vocab_size (trained_aaaa self) = 260"
  by (simp add: get_vocab_size_def trained_aaaa_def length_base_vocab)

section \<open>The order of the count table and the selected pair\<close>

lemma adjacent_pairs_zip: "adjacent_pairs data = concat (map (\<lambda>ids. zip ids (tl ids)) data)"
  unfolding adjacent_pairs_def adjacent_map by (rule refl)

lemma foldl_count_seq_concat:
  "foldl count_seq pairs data = foldl count_step pairs (concat (map (\<lambda>ids. zip ids (tl ids)) data))"
  by (induction data arbitrary: pairs) (simp_all add: count_seq_zip)

lemma count_pairs_scan: "count_pairs data = foldl count_step [] (adjacent_pairs data)"
  by (simp add: count_pairs_def foldl_count_seq_concat adjacent_pairs_zip)

lemma first_occurrences_snoc:
  "rev (remdups (rev (ps @ [x]))) =
     (if x \<in> set ps then rev (remdups (rev ps)) else rev (remdups (rev ps)) @ [x])"
  by simp

lemma keys_foldl_count_step_order:
  "map fst (foldl count_step [] ps) = rev (remdups (rev ps))"
proof (induction ps rule: rev_induct)
  case Nil
  show ?case by simp
next
  case (snoc x ps)
  have s: "set (map fst (foldl count_step [] ps)) = set ps"
    using keys_foldl_count_step[of "[]" ps] by simp
  have "map fst (foldl count_step [] (ps @ [x])) = map fst (count_step (foldl count_step [] ps) x)"
    by simp
  also have "\<dots> = (if x \<in> set ps then map fst (foldl count_step [] ps)
                     else map fst (foldl count_step [] ps) @ [x])"
    unfolding count_step_def update_keys s by (rule refl)
  also have "\<dots> = rev (remdups (rev (ps @ [x])))"
    unfolding snoc.IH first_occurrences_snoc by (rule refl)
  finally show ?case .
qed

lemma keys_count_pairs_order:
  "map fst (count_pairs data) = rev (remdups (rev (adjacent_pairs data)))"
  by (simp only: count_pairs_scan keys_foldl_count_step_order)

lemma first_occurrences_scan:
  "\<forall>i < length (rev (remdups (rev ps))).
     \<exists>n < length ps. ps ! n = rev (remdups (rev ps)) ! i \<and>
        (\<forall>k < n. \<exists>j < i. rev (remdups (rev ps)) ! j = ps ! k)"
proof (induction ps rule: rev_induct)
  case Nil
  show ?case by simp
next
  case (snoc x ps)
  let ?R = "rev (remdups (rev ps))"
  have setR: "set ?R = set ps" by simp
  show ?case
  proof (intro allI impI)
    fix i assume i: "i < length (rev (remdups (rev (ps @ [x]))))"
    show "\<exists>n < length (ps @ [x]). (ps @ [x]) ! n = rev (remdups (rev (ps @ [x]))) ! i \<and>
            (\<forall>k < n. \<exists>j < i. rev (remdups (rev (ps @ [x]))) ! j = (ps @ [x]) ! k)"
    proof (cases "i < length ?R")
      case True
      have Ri: "rev (remdups (rev (ps @ [x]))) ! i = ?R ! i"
        unfolding first_occurrences_snoc using True by (simp add: nth_append)
      from snoc.IH True obtain n where n: "n < length ps" "ps ! n = ?R ! i"
        "\<forall>k < n. \<exists>j < i. ?R ! j = ps ! k"
        by blast
      have "\<forall>k < n. \<exists>j < i. rev (remdups (rev (ps @ [x]))) ! j = (ps @ [x]) ! k"
      proof (intro allI impI)
        fix k assume k: "k < n"
        with n(3) obtain j where j: "j < i" "?R ! j = ps ! k" by blast
        from j(1) True have jl: "j < length ?R" by simp
        have "rev (remdups (rev (ps @ [x]))) ! j = ?R ! j"
          unfolding first_occurrences_snoc using jl by (simp add: nth_append)
        moreover have "(ps @ [x]) ! k = ps ! k"
          using k n(1) by (simp add: nth_append)
        ultimately show "\<exists>j < i. rev (remdups (rev (ps @ [x]))) ! j = (ps @ [x]) ! k"
          using j by auto
      qed
      moreover have "(ps @ [x]) ! n = rev (remdups (rev (ps @ [x]))) ! i"
        using n(1,2) Ri by (simp add: nth_append)
      moreover have "n < length (ps @ [x])" using n(1) by simp
      ultimately show ?thesis by blast
    next
      case False
      have notin: "x \<notin> set ps"
      proof
        assume "x \<in> set ps"
        then have "rev (remdups (rev (ps @ [x]))) = ?R"
          unfolding first_occurrences_snoc by simp
        with i False show False by simp
      qed
      then have R': "rev (remdups (rev (ps @ [x]))) = ?R @ [x]"
        unfolding first_occurrences_snoc by simp
      from i False have ii: "i = length ?R" unfolding R' by simp
      have "\<forall>k < length ps. \<exists>j < i. rev (remdups (rev (ps @ [x]))) ! j = (ps @ [x]) ! k"
      proof (intro allI impI)
        fix k assume k: "k < length ps"
        then have "ps ! k \<in> set ?R" unfolding setR by simp
        then obtain j where j: "j < length ?R" "?R ! j = ps ! k"
          unfolding in_set_conv_nth by blast
        have "(?R @ [x]) ! j = ps ! k" using j by (simp add: nth_append)
        moreover have "(ps @ [x]) ! k = ps ! k" using k by (simp add: nth_append)
        ultimately show "\<exists>j < i. rev (remdups (rev (ps @ [x]))) ! j = (ps @ [x]) ! k"
          unfolding R' ii using j(1) by auto
      qed
      moreover have "(ps @ [x]) ! length ps = rev (remdups (rev (ps @ [x]))) ! i"
        unfolding R' ii by (simp add: nth_append)
      moreover have "length ps < length (ps @ [x])" by simp
      ultimately show ?thesis by blast
    qed
  qed
qed

lemma entry_count:
  assumes "e \<in> set (count_pairs data)"
  shows "snd e = int (total_occurrences data (fst e))"
proof -
  obtain q g where e: "e = (q, g)" by (cases e)
  from assms e have "map_of (count_pairs data) q = Some g"
    using distinct_count_pairs[of data] by (simp add: map_of_is_SomeI)
  then show ?thesis
    unfolding e map_of_count_pairs by (simp split: if_splits)
qed

lemma pair_key_entry:
  "e \<in> set (count_pairs data) \<Longrightarrow> pair_key e = scan_key data (fst e)"
  using entry_count[of e data] by (simp add: pair_key_def scan_key_def)

lemma best_pair_first_best:
  assumes best: "best_pair (count_pairs data) = Inr (p, f)"
  shows "first_best data p \<and> f = int (total_occurrences data p)"
proof -
  let ?cnt = "count_pairs data"
  let ?ps = "adjacent_pairs data"
  let ?L = "rev (remdups (rev ?ps))"
  have L: "map fst ?cnt = ?L" by (rule keys_count_pairs_order)
  have len: "length ?cnt = length ?L"
    using L by (metis length_map)
  from best have "py_max pair_key ?cnt = Inr (p, f)" by (simp only: best_pair_def)
  then have "\<exists>i. first_max pair_key ?cnt i \<and> ?cnt ! i = (p, f)" by (rule py_max_first_max)
  then obtain i where fm: "first_max pair_key ?cnt i" and ci: "?cnt ! i = (p, f)"
    by (elim exE conjE)
  have il: "i < length ?cnt" using fm by (simp add: first_max_def)
  have mx: "\<forall>j < length ?cnt. \<not> tuple_less (pair_key (?cnt ! i)) (pair_key (?cnt ! j))"
    using fm by (simp add: first_max_def)
  have lt: "\<forall>j < i. tuple_less (pair_key (?cnt ! j)) (pair_key (?cnt ! i))"
    using fm by (simp add: first_max_def)
  have nthL: "?L ! j = fst (?cnt ! j)" if "j < length ?cnt" for j
    using that L by (metis nth_map)
  have key: "pair_key (?cnt ! j) = scan_key data (?L ! j)" if "j < length ?cnt" for j
  proof -
    from that have "?cnt ! j \<in> set ?cnt" by simp
    then have "pair_key (?cnt ! j) = scan_key data (fst (?cnt ! j))" by (rule pair_key_entry)
    then show ?thesis using nthL[OF that] by simp
  qed
  have Li: "?L ! i = p" using nthL[OF il] ci by simp
  have keyi: "pair_key (?cnt ! i) = scan_key data p" using key[OF il] Li by simp
  have f: "f = int (total_occurrences data p)"
  proof -
    from il have "?cnt ! i \<in> set ?cnt" by simp
    from entry_count[OF this] ci show ?thesis by simp
  qed
  from il len have iL: "i < length ?L" by simp
  from first_occurrences_scan[of ?ps] iL obtain n where
    n: "n < length ?ps" "?ps ! n = ?L ! i" "\<forall>k < n. \<exists>j < i. ?L ! j = ?ps ! k"
    by blast
  have before: "\<forall>k \<in> {0 ..< n}. tuple_less (scan_key data (?ps ! k)) (scan_key data p)"
  proof
    fix k assume "k \<in> {0 ..< n}"
    then have "k < n" by simp
    with n(3) obtain j where j: "j < i" "?L ! j = ?ps ! k" by blast
    from j(1) il have jl: "j < length ?cnt" by simp
    from lt j(1) have "tuple_less (pair_key (?cnt ! j)) (pair_key (?cnt ! i))" by simp
    then show "tuple_less (scan_key data (?ps ! k)) (scan_key data p)"
      unfolding key[OF jl] keyi j(2) .
  qed
  have all: "\<forall>k \<in> {0 ..< length ?ps}. \<not> tuple_less (scan_key data p) (scan_key data (?ps ! k))"
  proof
    fix k assume "k \<in> {0 ..< length ?ps}"
    then have "?ps ! k \<in> set ?L" by simp
    then obtain j where j: "j < length ?L" "?L ! j = ?ps ! k"
      unfolding in_set_conv_nth by blast
    from j(1) len have jl: "j < length ?cnt" by simp
    from mx jl have "\<not> tuple_less (pair_key (?cnt ! i)) (pair_key (?cnt ! j))" by simp
    then show "\<not> tuple_less (scan_key data p) (scan_key data (?ps ! k))"
      unfolding key[OF jl] keyi j(2) .
  qed
  have "first_best data p"
    unfolding first_best_def
  proof (rule bexI[of _ n])
    show "n \<in> {0 ..< length ?ps}" using n(1) by simp
    show "?ps ! n = p \<and>
      (\<forall>k \<in> {0 ..< n}. tuple_less (scan_key data (?ps ! k)) (scan_key data p)) \<and>
      (\<forall>k \<in> {0 ..< length ?ps}. \<not> tuple_less (scan_key data p) (scan_key data (?ps ! k)))"
      using n(2) Li before all by simp
  qed
  with f show ?thesis by simp
qed

lemma first_best_unique:
  assumes "first_best data p" "first_best data q"
  shows "p = q"
proof -
  let ?ps = "adjacent_pairs data"
  from assms(1) obtain n where n: "n < length ?ps" "?ps ! n = p"
    "\<forall>k \<in> {0 ..< n}. tuple_less (scan_key data (?ps ! k)) (scan_key data p)"
    "\<forall>k \<in> {0 ..< length ?ps}. \<not> tuple_less (scan_key data p) (scan_key data (?ps ! k))"
    unfolding first_best_def by auto
  from assms(2) obtain m where m: "m < length ?ps" "?ps ! m = q"
    "\<forall>k \<in> {0 ..< m}. tuple_less (scan_key data (?ps ! k)) (scan_key data q)"
    "\<forall>k \<in> {0 ..< length ?ps}. \<not> tuple_less (scan_key data q) (scan_key data (?ps ! k))"
    unfolding first_best_def by auto
  have "\<not> n < m"
  proof
    assume "n < m"
    with m(3) n(2) have "tuple_less (scan_key data p) (scan_key data q)" by auto
    moreover from n(4) m(1,2) have "\<not> tuple_less (scan_key data p) (scan_key data q)" by auto
    ultimately show False by simp
  qed
  moreover have "\<not> m < n"
  proof
    assume "m < n"
    with n(3) m(2) have "tuple_less (scan_key data q) (scan_key data p)" by auto
    moreover from m(4) n(1,2) have "\<not> tuple_less (scan_key data q) (scan_key data p)" by auto
    ultimately show False by simp
  qed
  ultimately have "n = m" by simp
  with n(2) m(2) show ?thesis by simp
qed

lemma best_pair_exists:
  assumes "adjacent_pairs data \<noteq> []"
  shows "\<exists>w. best_pair (count_pairs data) = Inr w"
proof -
  have "set (map fst (count_pairs data)) = set (adjacent_pairs data)"
    unfolding keys_count_pairs_order by simp
  with assms have "count_pairs data \<noteq> []" by auto
  then show ?thesis unfolding best_pair_def by (rule py_max_nonempty)
qed

lemma train_body_Next_D:
  assumes "train_body (self, data) = Next st'"
  shows "\<exists>p f. best_pair (count_pairs data) = Inr (p, f) \<and> f \<noteq> 1 \<and>
           merges (fst st') = AList.update p (int (length (vocab self))) (merges self) \<and>
           snd st' = map (\<lambda>ids. merge ids p (int (length (vocab self)))) data"
  using assms
  by (auto simp: train_body_def Let_def split: sum.splits prod.splits if_splits option.splits)

lemma train_body_Break_D:
  assumes "train_body (self, data) = Break st'"
  shows "st' = (self, data) \<and> (\<exists>p. best_pair (count_pairs data) = Inr (p, 1))"
  using assms
  by (auto simp: train_body_def Let_def split: sum.splits prod.splits if_splits option.splits)

lemma encode_loop_select:
  assumes "1 < length ids"
  shows "\<exists>p f. best_pair (count_pairs [ids]) = Inr (p, f) \<and>
           encode_loop m ids =
             (case map_of m p of
                None \<Rightarrow> Some (Inr ids)
              | Some idx \<Rightarrow> encode_loop m (merge ids p idx))"
proof -
  from encode_step[OF assms] obtain p f where b: "best_pair (count_pairs [ids]) = Inr (p, f)"
    by blast
  have "encode_loop m ids =
             (case map_of m p of
                None \<Rightarrow> Some (Inr ids)
              | Some idx \<Rightarrow> encode_loop m (merge ids p idx))"
    using assms b by (subst encode_loop.simps) simp
  with b show ?thesis by blast
qed

lemma best_pair_spec_winner:
  assumes "best_pair cnt = Inr w"
  shows "spec_winner cnt w"
proof -
  from assms have "py_max pair_key cnt = Inr w" by (simp only: best_pair_def)
  then have "\<exists>i. first_max pair_key cnt i \<and> cnt ! i = w" by (rule py_max_first_max)
  then obtain i where fm: "first_max pair_key cnt i" and w: "cnt ! i = w"
    by (elim exE conjE)
  show ?thesis using first_max_spec_winner[OF fm] by (simp add: w)
qed

lemma cp12121: "count_pairs [[1,2,1,2,1]] = [((1,2),2), ((2,1),2)]"
  by (simp add: count_pairs_def count_seq_def count_step_def dict_get_def)

lemma ap12121: "adjacent_pairs [[1,2,1,2,1]] = [(1,2), (2,1), (1,2), (2,1)]"
  by (simp add: adjacent_pairs_zip)

lemma best12121: "best_pair (count_pairs [[1,2,1,2,1]]) = Inr ((1,2),2)"
  by (simp add: cp12121 best_pair_def tuple_less_def pair_key_def)

lemma map_of_base_vocab_1_2: "map_of base_vocab 1 = Some [1]" "map_of base_vocab 2 = Some [2]"
proof -
  have "map_of base_vocab (uint (1 :: byte)) = Some [1]"
    using bytes_ok_base_vocab unfolding bytes_ok_def by (rule spec)
  then show "map_of base_vocab 1 = Some [1]" by simp
  have "map_of base_vocab (uint (2 :: byte)) = Some [2]"
    using bytes_ok_base_vocab unfolding bytes_ok_def by (rule spec)
  then show "map_of base_vocab 2 = Some [2]" by simp
qed

lemma train_body_12121:
  "train_body (reset self, [[1,2,1,2,1]]) = Next (trained_12121 self, [[259, 259, 1]])"
  by (simp add: train_body_def Let_def cp12121 best_pair_def tuple_less_def pair_key_def
      vocab_reset length_base_vocab map_of_base_vocab_1_2 update_base_vocab merge_substitute
      trained_12121_def)

lemma encode_loop_12121:
  "encode_loop [((1, 2), 5)] [1,2,1,2,1] = encode_loop [((1, 2), 5)] [5, 5, 1]"
  by (subst encode_loop.simps) (simp add: best12121 merge_substitute)

section \<open>Claims on merge, count_pairs and the selection\<close>

text \<open>
  C2. \<^verbatim>\<open>merge\<close> scans from left to right: where the current and the next
  element are the pair it emits the replacement id and goes on two positions
  further, otherwise it emits the current element and goes on one position
  further; the last element is emitted as it is. The three examples of the
  specification follow.
\<close>

theorem merge_greedy_left_to_right:
  "merge [] pair idx = [] \<and>
   merge [x] pair idx = [x] \<and>
   merge (x # y # rest) pair idx =
     (if (x, y) = pair then idx # merge rest pair idx else x # merge (y # rest) pair idx) \<and>
   merge [0,0,0,1] (0,0) 9 = [9,0,1] \<and>
   merge [1,2,3,2,3,4] (2,3) 9 = [1,9,9,4] \<and>
   merge [1,2,2,3,4] (2,3) 99 = [1,2,99,4]"
  by (simp add: merge_substitute)

text \<open>
  C6. \<^verbatim>\<open>count_pairs\<close> maps every ordered pair to the number of positions, summed
  over the sequences one by one, at which the pair stands in a sequence; a pair
  that stands nowhere has no entry, no pair has two entries, and the example of
  the specification gives the four counts in the order of first occurrence.
\<close>

theorem count_pairs_exact:
  "map_of (count_pairs data) p =
     (if total_occurrences data p = 0 then None else Some (int (total_occurrences data p))) \<and>
   distinct (map fst (count_pairs data)) \<and>
   count_pairs [[1,2,3],[2,3,4],[1,2,2]] = [((1,2),2), ((2,3),2), ((3,4),1), ((2,2),1)]"
  using map_of_count_pairs[of data p] distinct_count_pairs[of data] count_pairs_example
  by simp

text \<open>
  C3, as the code has it. The keys of the count table are the distinct pairs of
  the sequences in the order of their first occurrence in the scan. Where the
  sequences have a pair, the selection on the table of \<^verbatim>\<open>count_pairs\<close> returns
  one, with its number of occurrences; the pair it returns is one that the rule
  of the specification allows (no pair has a higher frequency, and no pair of
  the same frequency a larger sum of ids), and among the pairs that tie on both
  it is the one that occurs first in the scan: every pair scanned before its
  first occurrence has a strictly smaller key. This determines the pair. A pass
  of training that merges, a pass of training that breaks, and a pass of the
  loop of \<^verbatim>\<open>encode\<close> all act on this pair of their current sequences.
\<close>

theorem pair_selection:
  "map fst (count_pairs data) = rev (remdups (rev (adjacent_pairs data))) \<and>
   (adjacent_pairs data \<noteq> [] \<longrightarrow> (\<exists>w. best_pair (count_pairs data) = Inr w)) \<and>
   (\<forall>p f. best_pair (count_pairs data) = Inr (p, f) \<longrightarrow>
      first_best data p \<and> f = int (total_occurrences data p) \<and>
      spec_winner (count_pairs data) (p, f)) \<and>
   (\<forall>p q. first_best data p \<and> first_best data q \<longrightarrow> p = q) \<and>
   (\<forall>st'. train_body (self, data) = Next st' \<longrightarrow>
      (\<exists>p. first_best data p \<and> total_occurrences data p \<noteq> 1 \<and>
         merges (fst st') = AList.update p (int (length (vocab self))) (merges self) \<and>
         snd st' = map (\<lambda>ids. merge ids p (int (length (vocab self)))) data)) \<and>
   (\<forall>st'. train_body (self, data) = Break st' \<longrightarrow>
      st' = (self, data) \<and> (\<exists>p. first_best data p \<and> total_occurrences data p = 1)) \<and>
   (1 < length ids \<longrightarrow>
      (\<exists>p. first_best [ids] p \<and>
         encode_loop m ids =
           (case map_of m p of
              None \<Rightarrow> Some (Inr ids)
            | Some idx \<Rightarrow> encode_loop m (merge ids p idx))))"
proof (intro conjI allI impI)
  show "map fst (count_pairs data) = rev (remdups (rev (adjacent_pairs data)))"
    by (rule keys_count_pairs_order)
next
  assume "adjacent_pairs data \<noteq> []"
  then show "\<exists>w. best_pair (count_pairs data) = Inr w" by (rule best_pair_exists)
next
  fix p f assume b: "best_pair (count_pairs data) = Inr (p, f)"
  from best_pair_first_best[OF b]
  show "first_best data p" and "f = int (total_occurrences data p)" by simp_all
  from b show "spec_winner (count_pairs data) (p, f)" by (rule best_pair_spec_winner)
next
  fix p q assume "first_best data p \<and> first_best data q"
  then show "p = q" using first_best_unique by blast
next
  fix st' assume "train_body (self, data) = Next st'"
  from train_body_Next_D[OF this] obtain p f where
    b: "best_pair (count_pairs data) = Inr (p, f)" and f: "f \<noteq> 1" and
    r: "merges (fst st') = AList.update p (int (length (vocab self))) (merges self)"
       "snd st' = map (\<lambda>ids. merge ids p (int (length (vocab self)))) data"
    by blast
  from best_pair_first_best[OF b] f have "first_best data p" "total_occurrences data p \<noteq> 1"
    by auto
  with r show "\<exists>p. first_best data p \<and> total_occurrences data p \<noteq> 1 \<and>
         merges (fst st') = AList.update p (int (length (vocab self))) (merges self) \<and>
         snd st' = map (\<lambda>ids. merge ids p (int (length (vocab self)))) data"
    by blast
next
  fix st' assume a: "train_body (self, data) = Break st'"
  from train_body_Break_D[OF a] show "st' = (self, data)" by simp
  from train_body_Break_D[OF a] obtain p where b: "best_pair (count_pairs data) = Inr (p, 1)"
    by blast
  from best_pair_first_best[OF b] have "first_best data p" "total_occurrences data p = 1"
    by auto
  then show "\<exists>p. first_best data p \<and> total_occurrences data p = 1" by blast
next
  assume "1 < length ids"
  from encode_loop_select[OF this, of m] obtain p f where
    b: "best_pair (count_pairs [ids]) = Inr (p, f)" and
    e: "encode_loop m ids =
           (case map_of m p of
              None \<Rightarrow> Some (Inr ids)
            | Some idx \<Rightarrow> encode_loop m (merge ids p idx))"
    by blast
  from best_pair_first_best[OF b] have "first_best [ids] p" by simp
  with e show "\<exists>p. first_best [ids] p \<and>
         encode_loop m ids =
           (case map_of m p of
              None \<Rightarrow> Some (Inr ids)
            | Some idx \<Rightarrow> encode_loop m (merge ids p idx))"
    by blast
qed

text \<open>
  C3, witness: in \<open>[1, 2, 1, 2, 1]\<close> the pairs \<open>(1, 2)\<close> and \<open>(2, 1)\<close> both have
  frequency 2 and sum 3; \<open>(1, 2)\<close> is scanned first, and the selection, a
  pass of training and a pass of the loop of \<^verbatim>\<open>encode\<close> all take it. The pass
  of training that breaks is the one on \<open>[259, 259]\<close>.
\<close>

theorem pair_selection_witness:
  "adjacent_pairs [[1,2,1,2,1]] = [(1,2), (2,1), (1,2), (2,1)] \<and>
   map fst (count_pairs [[1,2,1,2,1]]) = [(1,2), (2,1)] \<and>
   best_pair (count_pairs [[1,2,1,2,1]]) = Inr ((1,2),2) \<and>
   first_best [[1,2,1,2,1]] (1,2) \<and>
   train_body (reset (snd BpeTokenizer_new), [[1,2,1,2,1]])
     = Next (trained_12121 (snd BpeTokenizer_new), [[259, 259, 1]]) \<and>
   (\<exists>p. first_best [[1,2,1,2,1]] p \<and> total_occurrences [[1,2,1,2,1]] p \<noteq> 1 \<and>
      [[259, 259, 1]] = map (\<lambda>ids. merge ids p 259) [[1,2,1,2,1]]) \<and>
   train_body (trained_aaaa (snd BpeTokenizer_new), [[259, 259]])
     = Break (trained_aaaa (snd BpeTokenizer_new), [[259, 259]]) \<and>
   (\<exists>p. first_best [[259, 259]] p \<and> total_occurrences [[259, 259]] p = 1) \<and>
   1 < length [1,2,1,2,1 :: int] \<and>
   encode_loop [((1, 2), 5)] [1,2,1,2,1] = encode_loop [((1, 2), 5)] [5, 5, 1] \<and>
   (\<exists>p. first_best [[1,2,1,2,1]] p \<and>
      encode_loop [((1, 2), 5)] [1,2,1,2,1] =
        (case map_of [((1, 2), 5)] p of
           None \<Rightarrow> Some (Inr [1,2,1,2,1])
         | Some idx \<Rightarrow> encode_loop [((1, 2), 5)] (merge [1,2,1,2,1] p idx)))"
proof -
  let ?D = "[[1,2,1,2,1 :: int]]"
  let ?S = "reset (snd BpeTokenizer_new)"
  note t = pair_selection[of ?D ?S "[1,2,1,2,1]" "[((1, 2), 5)]"]
  note t2 = conjunct2[OF t]
  note t3 = conjunct2[OF t2]
  note t4 = conjunct2[OF t3]
  note t5 = conjunct2[OF t4]
  note t6 = conjunct2[OF t5]
  have c1: "adjacent_pairs ?D = [(1,2), (2,1), (1,2), (2,1)]" by (rule ap12121)
  have c2: "map fst (count_pairs ?D) = [(1,2), (2,1)]" by (simp add: cp12121)
  have c3: "best_pair (count_pairs ?D) = Inr ((1,2),2)" by (rule best12121)
  from conjunct1[OF t3] c3 have c4: "first_best ?D (1,2)" by blast
  have c5: "train_body (?S, ?D) = Next (trained_12121 (snd BpeTokenizer_new), [[259, 259, 1]])"
    by (rule train_body_12121)
  from conjunct1[OF t5] c5
  have "\<exists>p. first_best ?D p \<and> total_occurrences ?D p \<noteq> 1 \<and>
      merges (fst (trained_12121 (snd BpeTokenizer_new), [[259, 259, 1 :: int]]))
        = AList.update p (int (length (vocab ?S))) (merges ?S) \<and>
      snd (trained_12121 (snd BpeTokenizer_new), [[259, 259, 1 :: int]])
        = map (\<lambda>ids. merge ids p (int (length (vocab ?S)))) ?D"
    by blast
  then have c6: "\<exists>p. first_best ?D p \<and> total_occurrences ?D p \<noteq> 1 \<and>
      [[259, 259, 1]] = map (\<lambda>ids. merge ids p 259) ?D"
    by (auto simp: vocab_reset length_base_vocab)
  let ?A = "trained_aaaa (snd BpeTokenizer_new)"
  note u = pair_selection[of "[[259, 259]]" ?A "[]" "[]"]
  have c7: "train_body (?A, [[259, 259]]) = Break (?A, [[259, 259]])"
    by (rule train_body_aaaa_2)
  from conjunct1[OF conjunct2[OF conjunct2[OF conjunct2[OF conjunct2[OF conjunct2[OF u]]]]]] c7
  have c8: "\<exists>p. first_best [[259, 259]] p \<and> total_occurrences [[259, 259]] p = 1"
    by blast
  have c9: "1 < length [1,2,1,2,1 :: int]" by simp
  have c10: "encode_loop [((1, 2), 5)] [1,2,1,2,1] = encode_loop [((1, 2), 5)] [5, 5, 1]"
    by (rule encode_loop_12121)
  from mp[OF conjunct2[OF t6] c9]
  have c11: "\<exists>p. first_best [[1,2,1,2,1]] p \<and>
      encode_loop [((1, 2), 5)] [1,2,1,2,1] =
        (case map_of [((1, 2), 5)] p of
           None \<Rightarrow> Some (Inr [1,2,1,2,1])
         | Some idx \<Rightarrow> encode_loop [((1, 2), 5)] (merge [1,2,1,2,1] p idx))" .
  from c1 c2 c3 c4 c5 c6 c7 c8 c9 c10 c11 show ?thesis by (intro conjI)
qed

text \<open>
  C3, counterexample to the unique winner: in \<open>[1, 2, 1]\<close> the pairs \<open>(1, 2)\<close>
  and \<open>(2, 1)\<close> both have frequency 1 and sum 3, so the rule allows both; the
  code returns \<open>(1, 2)\<close> there and \<open>(2, 1)\<close> on \<open>[2, 1, 2]\<close>, where the same
  two pairs are counted in the other order.
\<close>

theorem unique_winner_counterexample:
  "spec_winner (count_pairs [[1,2,1]]) ((1,2),1) \<and>
   spec_winner (count_pairs [[1,2,1]]) ((2,1),1) \<and>
   best_pair (count_pairs [[1,2,1]]) = Inr ((1,2),1) \<and>
   best_pair (count_pairs [[2,1,2]]) = Inr ((2,1),1)"
  by (simp add: cp121 cp212 spec_winner_def best_pair_def tuple_less_def pair_key_def)

section \<open>Claims on the tokenizers\<close>

text \<open>
  C8. \<^verbatim>\<open>init_vocab\<close> returns with the vocabulary of the 256 single bytes
  under the ids 0 to 255 followed by the pad, start and end tokens under 256,
  257 and 258, in this order: 259 entries; the three control ids are recorded;
  a second \<^verbatim>\<open>init_vocab\<close> gives the same tokenizer. The \<^verbatim>\<open>BpeTokenizer\<close>
  builds the same vocabulary and empties its merge table.
\<close>

theorem init_vocab_259:
  "fst (ByteTokenizer_init_vocab self) = Inr () \<and>
   vocab (snd (ByteTokenizer_init_vocab self))
     = map (\<lambda>idx. (int idx, [of_nat idx])) [0 ..< 256]
         @ [(256, pad_token), (257, bos_token), (258, eos_token)] \<and>
   get_vocab_size (snd (ByteTokenizer_init_vocab self)) = 259 \<and>
   pad_token_id (snd (ByteTokenizer_init_vocab self)) = Some 256 \<and>
   bos_token_id (snd (ByteTokenizer_init_vocab self)) = Some 257 \<and>
   eos_token_id (snd (ByteTokenizer_init_vocab self)) = Some 258 \<and>
   ByteTokenizer_init_vocab (snd (ByteTokenizer_init_vocab self)) = ByteTokenizer_init_vocab self \<and>
   vocab (snd (BpeTokenizer_init_vocab bpe)) = vocab (snd (ByteTokenizer_init_vocab self)) \<and>
   merges (snd (BpeTokenizer_init_vocab bpe)) = [] \<and>
   BpeTokenizer_init_vocab (snd (BpeTokenizer_init_vocab bpe)) = BpeTokenizer_init_vocab bpe"
  by (simp add: ByteTokenizer_init_vocab_eq BpeTokenizer_init_vocab_eq get_vocab_size_def
      length_base_vocab base_vocab_def byte_vocab_def)

text \<open>
  C7. \<^verbatim>\<open>decode\<close> raises exactly when some id of its input has no entry in the
  vocabulary, and what it raises is \<^verbatim>\<open>KeyError\<close>; when every id has an entry
  it returns the replacing UTF-8 decoding of the joined expansions, which is a
  total function of the bytes.
\<close>

theorem decode_raises_iff:
  "((\<exists>e. decode self ids = Inl e) \<longleftrightarrow> (\<exists>i \<in> set ids. map_of (vocab self) i = None)) \<and>
   (\<forall>e. decode self ids = Inl e \<longrightarrow> e = KeyError) \<and>
   ((\<forall>i \<in> set ids. map_of (vocab self) i \<noteq> None) \<longrightarrow>
      (\<exists>bs. join_vocab (vocab self) ids = Inr bs \<and> decode self ids = Inr (bytes_decode bs)))"
proof -
  have d: "decode self ids = Inl e \<longleftrightarrow> join_vocab (vocab self) ids = Inl e" for e
    by (simp add: decode_def split: sum.splits)
  have 1: "(\<exists>e. decode self ids = Inl e) \<longleftrightarrow> (\<exists>i \<in> set ids. map_of (vocab self) i = None)"
    unfolding d join_error by simp
  have 2: "\<forall>e. decode self ids = Inl e \<longrightarrow> e = KeyError"
    unfolding d join_error by simp
  have 3: "(\<forall>i \<in> set ids. map_of (vocab self) i \<noteq> None) \<longrightarrow>
      (\<exists>bs. join_vocab (vocab self) ids = Inr bs \<and> decode self ids = Inr (bytes_decode bs))"
  proof
    assume a: "\<forall>i \<in> set ids. map_of (vocab self) i \<noteq> None"
    have "\<exists>bs. join_vocab (vocab self) ids = Inr bs"
    proof (cases "join_vocab (vocab self) ids")
      case (Inl e)
      then have "\<exists>i \<in> set ids. map_of (vocab self) i = None"
        by (simp add: join_error)
      with a show ?thesis by blast
    next
      case (Inr bs)
      then show ?thesis by simp
    qed
    then obtain bs where "join_vocab (vocab self) ids = Inr bs" ..
    then show "\<exists>bs. join_vocab (vocab self) ids = Inr bs \<and> decode self ids = Inr (bytes_decode bs)"
      by (simp add: decode_def)
  qed
  from 1 2 3 show ?thesis by (intro conjI)
qed

text \<open>
  C7, witness: an id without entry raises; a truncated three-byte sequence and
  the byte \<open>0xFF\<close> each decode to U+FFFD around the letter between them.
\<close>

theorem decode_raises_iff_witness:
  "map_of (vocab lossy_example) 7 = None \<and>
   decode lossy_example [0, 7] = Inl KeyError \<and>
   map_of (vocab lossy_example) 0 \<noteq> None \<and>
   map_of (vocab lossy_example) 1 \<noteq> None \<and>
   map_of (vocab lossy_example) 2 \<noteq> None \<and>
   decode lossy_example [1, 0, 2] = Inr [0xFFFD, 0x41, 0xFFFD]"
proof -
  have n7: "map_of (vocab lossy_example) 7 = None"
    and k0: "map_of (vocab lossy_example) 0 \<noteq> None"
    and k1: "map_of (vocab lossy_example) 1 \<noteq> None"
    and k2: "map_of (vocab lossy_example) 2 \<noteq> None"
    by (simp_all add: lossy_example_def)
  have h1: "\<exists>i \<in> set [0, 7]. map_of (vocab lossy_example) i = None"
    using n7 by simp
  have h2: "\<forall>i \<in> set [1, 0, 2]. map_of (vocab lossy_example) i \<noteq> None"
    using k0 k1 k2 by simp
  note t1 = decode_raises_iff[of lossy_example "[0, 7]"]
  note t2 = decode_raises_iff[of lossy_example "[1, 0, 2]"]
  from iffD2[OF conjunct1[OF t1] h1] obtain e where e: "decode lossy_example [0, 7] = Inl e" ..
  from conjunct1[OF conjunct2[OF t1]] e have "e = KeyError" by blast
  with e have c1: "decode lossy_example [0, 7] = Inl KeyError" by simp
  from mp[OF conjunct2[OF conjunct2[OF t2]] h2] obtain bs where
    bs: "join_vocab (vocab lossy_example) [1, 0, 2] = Inr bs"
        "decode lossy_example [1, 0, 2] = Inr (bytes_decode bs)"
    by blast
  from bs(1) have "bs = [0xE2, 0x82, 0x41, 0xFF]"
    by (simp add: lossy_example_def)
  with bs(2) have c2: "decode lossy_example [1, 0, 2] = Inr [0xFFFD, 0x41, 0xFFFD]"
    by (simp add: bytes_decode_def is_continuation_byte_def)
  from n7 c1 k0 k1 k2 c2 show ?thesis by (intro conjI)
qed

text \<open>
  C9. With a target of at most 259, \<^verbatim>\<open>train\<close> does what \<^verbatim>\<open>init_vocab\<close>
  does and nothing more, whatever the corpus: it returns, the merge table is
  empty and the vocabulary is the base vocabulary of 259 entries.
\<close>

theorem train_degenerate:
  "max_vocab \<le> 259 \<Longrightarrow>
     train texts max_vocab self = BpeTokenizer_init_vocab self \<and>
     fst (train texts max_vocab self) = Inr () \<and>
     merges (snd (train texts max_vocab self)) = [] \<and>
     vocab (snd (train texts max_vocab self))
       = map (\<lambda>idx. (int idx, [of_nat idx])) [0 ..< 256]
           @ [(256, pad_token), (257, bos_token), (258, eos_token)] \<and>
     get_vocab_size (snd (train texts max_vocab self)) = 259"
  by (simp add: train_eq train_run_eq BpeTokenizer_init_vocab_eq reset_def get_vocab_size_def
      length_base_vocab base_vocab_def byte_vocab_def)

text \<open>
  C9, witness: target 259 on the corpus \<^verbatim>\<open>'aaaa'\<close>.
\<close>

theorem train_degenerate_witness:
  "(259 :: int) \<le> 259 \<and>
   fst (train [[97, 97, 97, 97]] 259 (snd BpeTokenizer_new)) = Inr () \<and>
   merges (snd (train [[97, 97, 97, 97]] 259 (snd BpeTokenizer_new))) = [] \<and>
   get_vocab_size (snd (train [[97, 97, 97, 97]] 259 (snd BpeTokenizer_new))) = 259"
proof -
  have h: "(259 :: int) \<le> 259" by simp
  note t = train_degenerate[OF h, of "[[97, 97, 97, 97]]" "snd BpeTokenizer_new"]
  note t2 = conjunct2[OF t]
  note t3 = conjunct2[OF t2]
  from h conjunct1[OF t2] conjunct1[OF t3] conjunct2[OF conjunct2[OF t3]]
  show ?thesis by (intro conjI)
qed

text \<open>
  C4, as the code has it. After \<^verbatim>\<open>train\<close> the vocabulary has at most
  \<open>max max_vocab 259\<close> entries. When \<^verbatim>\<open>train\<close> returns with fewer entries than
  the target, the loop was left by its \<^verbatim>\<open>break\<close>: in the final state of the
  loop the selected pair has frequency 1 and the pass changes neither the merge
  table nor the vocabulary. The size of the vocabulary never decreases from one
  number of passes to a larger one.
\<close>

theorem train_vocab_size:
  "get_vocab_size (snd (train texts max_vocab self)) \<le> max max_vocab 259 \<and>
   (fst (train texts max_vocab self) = Inr () \<and>
    get_vocab_size (snd (train texts max_vocab self)) < max_vocab \<longrightarrow>
      fst (snd (train_run texts max_vocab self)) = snd (train texts max_vocab self) \<and>
      train_body (snd (train_run texts max_vocab self))
        = Break (snd (train_run texts max_vocab self)) \<and>
      (\<exists>pair. best_pair (count_pairs (snd (snd (train_run texts max_vocab self))))
                = Inr (pair, 1))) \<and>
   (\<forall>st j k. j \<le> k \<longrightarrow>
      vocab_len (snd (train_loop j st)) \<le> vocab_len (snd (train_loop k st)))"
proof (intro conjI impI allI)
  show "get_vocab_size (snd (train texts max_vocab self)) \<le> max max_vocab 259"
    unfolding get_vocab_size_train by (rule train_run_size)
next
  assume a: "fst (train texts max_vocab self) = Inr () \<and>
    get_vocab_size (snd (train texts max_vocab self)) < max_vocab"
  then have ok: "fst (train_run texts max_vocab self) = Inr ()"
    and less: "int (vocab_len (snd (train_run texts max_vocab self))) < max_vocab"
    by (simp_all add: train_eq get_vocab_size_def vocab_len_def)
  show "fst (snd (train_run texts max_vocab self)) = snd (train texts max_vocab self)"
    by (simp add: train_eq)
  from train_run_early[OF ok less]
  show "train_body (snd (train_run texts max_vocab self))
        = Break (snd (train_run texts max_vocab self))"
    and "\<exists>pair. best_pair (count_pairs (snd (snd (train_run texts max_vocab self))))
                = Inr (pair, 1)"
    by simp_all
next
  fix st :: "BpeTokenizer \<times> int list list" and j k :: nat
  assume "j \<le> k"
  then show "vocab_len (snd (train_loop j st)) \<le> vocab_len (snd (train_loop k st))"
    by (rule train_loop_mono_le)
qed

text \<open>
  C4, witness: training on \<^verbatim>\<open>'aaaa'\<close> with target 300 merges \<open>(97, 97)\<close>
  once and stops at \<open>[259, 259]\<close>, whose only pair has frequency 1.
\<close>

theorem train_vocab_size_witness:
  "fst (train [[97, 97, 97, 97]] 300 (snd BpeTokenizer_new)) = Inr () \<and>
   get_vocab_size (snd (train [[97, 97, 97, 97]] 300 (snd BpeTokenizer_new))) = 260 \<and>
   (260 :: int) < 300 \<and>
   train_body (snd (train_run [[97, 97, 97, 97]] 300 (snd BpeTokenizer_new)))
     = Break (snd (train_run [[97, 97, 97, 97]] 300 (snd BpeTokenizer_new))) \<and>
   (\<exists>pair. best_pair (count_pairs (snd (snd (train_run [[97, 97, 97, 97]] 300 (snd BpeTokenizer_new)))))
             = Inr (pair, 1))"
proof -
  let ?self = "snd BpeTokenizer_new"
  have ok: "fst (train [[97, 97, 97, 97]] 300 ?self) = Inr ()"
    by (simp add: train_aaaa)
  have sz: "get_vocab_size (snd (train [[97, 97, 97, 97]] 300 ?self)) = 260"
    by (simp add: train_aaaa size_trained_aaaa)
  have hyp: "fst (train [[97, 97, 97, 97]] 300 ?self) = Inr () \<and>
    get_vocab_size (snd (train [[97, 97, 97, 97]] 300 ?self)) < 300"
    using ok sz by simp
  note t = train_vocab_size[of "[[97, 97, 97, 97]]" 300 ?self]
  note c = mp[OF conjunct1[OF conjunct2[OF t]] hyp]
  show ?thesis using ok sz c by simp
qed

text \<open>
  C4, counterexample to the bound by the target: with target 100 \<^verbatim>\<open>train\<close>
  returns at its guard and the vocabulary has its 259 base entries.
\<close>

theorem train_small_target_counterexample:
  "fst (train [] 100 (snd BpeTokenizer_new)) = Inr () \<and>
   get_vocab_size (snd (train [] 100 (snd BpeTokenizer_new))) = 259 \<and>
   \<not> get_vocab_size (snd (train [] 100 (snd BpeTokenizer_new))) \<le> 100"
  by (simp add: train_eq train_run_eq get_vocab_size_def vocab_reset length_base_vocab)

text \<open>
  C10. \<^verbatim>\<open>encode\<close> returns for every tokenizer and every string, and its loop
  returns for every merge table and every sequence, with a sequence that is not
  longer. On a sequence of more than one id the selection returns a pair that
  stands in the sequence, and substituting it, by whatever id, makes the
  sequence strictly shorter.
\<close>

theorem encode_terminates:
  "(\<exists>r. encode self t = Some r) \<and>
   (\<exists>r. encode_loop m ids = Some (Inr r) \<and> length r \<le> length ids) \<and>
   (1 < length ids \<longrightarrow>
      (\<exists>pair freq. best_pair (count_pairs [ids]) = Inr (pair, freq) \<and>
         pair \<in> set (zip ids (tl ids)) \<and>
         (\<forall>idx. length (merge ids pair idx) < length ids)))"
proof (intro conjI impI)
  show "\<exists>r. encode self t = Some r"
  proof (cases "ByteTokenizer_encode t")
    case (Inl e)
    then show ?thesis by (simp add: encode_def)
  next
    case (Inr ids0)
    from encode_loop_terminates[of "merges self" ids0] Inr show ?thesis
      by (auto simp: encode_def)
  qed
  show "\<exists>r. encode_loop m ids = Some (Inr r) \<and> length r \<le> length ids"
    by (rule encode_loop_terminates)
next
  assume "1 < length ids"
  then show "\<exists>pair freq. best_pair (count_pairs [ids]) = Inr (pair, freq) \<and>
         pair \<in> set (zip ids (tl ids)) \<and>
         (\<forall>idx. length (merge ids pair idx) < length ids)"
    by (rule encode_step)
qed

text \<open>
  C10, witness: the sequence \<open>[97, 97]\<close> and the merge table of \<open>(97, 97)\<close>.
\<close>

theorem encode_terminates_witness:
  "1 < length [97, 97 :: int] \<and>
   (\<exists>pair freq. best_pair (count_pairs [[97, 97]]) = Inr (pair, freq) \<and>
         pair \<in> set (zip [97, 97] (tl [97, 97])) \<and>
         (\<forall>idx. length (merge [97, 97] pair idx) < length [97, 97 :: int])) \<and>
   (\<exists>r. encode_loop [((97, 97), 259)] [97, 97] = Some (Inr r) \<and> length r \<le> length [97, 97 :: int])"
proof -
  have h: "1 < length [97, 97 :: int]" by simp
  note t = encode_terminates[of "snd BpeTokenizer_new" "[]" "[((97, 97), 259)]" "[97, 97]"]
  from h mp[OF conjunct2[OF conjunct2[OF t]] h] conjunct1[OF conjunct2[OF t]]
  show ?thesis by (intro conjI)
qed

text \<open>
  C5. On a \<^verbatim>\<open>BpeTokenizer\<close> as constructed or as any call of \<^verbatim>\<open>train\<close>
  leaves it, every id that \<^verbatim>\<open>encode\<close> returns is a key of the vocabulary, and
  \<^verbatim>\<open>decode\<close> of the ids returns a string.
\<close>

theorem encode_ids_in_vocab:
  "self = snd BpeTokenizer_new \<or> self = snd (train texts max_vocab self0) \<Longrightarrow>
   encode self t = Some (Inr ids) \<Longrightarrow>
     (\<forall>i \<in> set ids. map_of (vocab self) i \<noteq> None) \<and> (\<exists>s. decode self ids = Inr s)"
proof -
  assume r: "self = snd BpeTokenizer_new \<or> self = snd (train texts max_vocab self0)"
    and e: "encode self t = Some (Inr ids)"
  from r have inv: "tok_inv self" using tok_inv_new tok_inv_train by auto
  from encode_ids_ok[OF inv e] have ok: "ids_ok (vocab self) ids" .
  have 1: "\<forall>i \<in> set ids. map_of (vocab self) i \<noteq> None"
  proof
    fix i assume "i \<in> set ids"
    from ids_ok_lookup[OF ok this] show "map_of (vocab self) i \<noteq> None" by auto
  qed
  from join_ok[OF ok] obtain bs where "join_vocab (vocab self) ids = Inr bs" ..
  then have "decode self ids = Inr (bytes_decode bs)" by (simp add: decode_def)
  with 1 show ?thesis by blast
qed

text \<open>
  C5, witness: \<^verbatim>\<open>'aa'\<close> encodes to the merged id 259 on the tokenizer trained
  on \<^verbatim>\<open>'aaaa'\<close>.
\<close>

theorem encode_ids_in_vocab_witness:
  "encode (snd (train [[97, 97, 97, 97]] 300 (snd BpeTokenizer_new))) [97, 97] = Some (Inr [259]) \<and>
   map_of (vocab (snd (train [[97, 97, 97, 97]] 300 (snd BpeTokenizer_new)))) 259 \<noteq> None \<and>
   (\<exists>s. decode (snd (train [[97, 97, 97, 97]] 300 (snd BpeTokenizer_new))) [259] = Inr s)"
proof -
  let ?self = "snd (train [[97, 97, 97, 97]] 300 (snd BpeTokenizer_new))"
  have e: "encode ?self [97, 97] = Some (Inr [259])"
    by (simp add: train_aaaa encode_trained_aa)
  have r: "?self = snd BpeTokenizer_new \<or> ?self = snd (train [[97, 97, 97, 97]] 300 (snd BpeTokenizer_new))"
    by simp
  note t = encode_ids_in_vocab[OF r e]
  from conjunct1[OF t] have k: "map_of (vocab ?self) 259 \<noteq> None" by simp
  from e k conjunct2[OF t] show ?thesis by (intro conjI)
qed

text \<open>
  C1. For every string that \<^verbatim>\<open>str.encode\<close> accepts (code points of scalar
  values), decoding the encoding gives the string back: with the
  \<^verbatim>\<open>ByteTokenizer\<close> as constructed or after its \<^verbatim>\<open>train\<close>, with the
  \<^verbatim>\<open>BpeTokenizer\<close> as constructed, and with the \<^verbatim>\<open>BpeTokenizer\<close> as any call
  of \<^verbatim>\<open>train\<close> leaves it, whatever the corpus, the target size and the state
  before the call, and whether the call returned or raised. In particular
  \<^verbatim>\<open>encode\<close> returns.
\<close>

theorem roundtrip:
  "encodable t \<Longrightarrow>
     (\<exists>ids. ByteTokenizer_encode t = Inr ids \<and>
            decode (snd ByteTokenizer_new) ids = Inr t \<and>
            decode (snd (ByteTokenizer_train texts max_vocab bself)) ids = Inr t) \<and>
     (\<exists>ids. encode (snd BpeTokenizer_new) t = Some (Inr ids) \<and>
            decode (snd BpeTokenizer_new) ids = Inr t) \<and>
     (\<exists>ids. encode (snd (train texts max_vocab self)) t = Some (Inr ids) \<and>
            decode (snd (train texts max_vocab self)) ids = Inr t)"
proof (intro conjI)
  assume e: "encodable t"
  from str_encode_roundtrip[OF e] obtain bs where
    bs: "str_encode t = Inr bs" "bytes_decode bs = t" by blast
  have enc: "ByteTokenizer_encode t = Inr (map uint bs)"
    using bs(1) by (simp add: ByteTokenizer_encode_def)
  have b1: "bytes_ok (vocab (snd ByteTokenizer_new))"
    by (simp add: ByteTokenizer_new_def vocab_ByteTokenizer_init bytes_ok_base_vocab)
  have b2: "bytes_ok (vocab (snd (ByteTokenizer_train texts max_vocab bself)))"
    by (simp add: ByteTokenizer_train_def vocab_ByteTokenizer_init bytes_ok_base_vocab)
  have "decode (snd ByteTokenizer_new) (map uint bs) = Inr t"
    using b1 bs by (rule decode_ok) simp
  moreover have "decode (snd (ByteTokenizer_train texts max_vocab bself)) (map uint bs) = Inr t"
    using b2 bs by (rule decode_ok) simp
  ultimately show "\<exists>ids. ByteTokenizer_encode t = Inr ids \<and>
            decode (snd ByteTokenizer_new) ids = Inr t \<and>
            decode (snd (ByteTokenizer_train texts max_vocab bself)) ids = Inr t"
    using enc by blast
  show "\<exists>ids. encode (snd BpeTokenizer_new) t = Some (Inr ids) \<and>
            decode (snd BpeTokenizer_new) ids = Inr t"
    using roundtrip_bpe[OF e tok_inv_new] by blast
  show "\<exists>ids. encode (snd (train texts max_vocab self)) t = Some (Inr ids) \<and>
            decode (snd (train texts max_vocab self)) ids = Inr t"
    using roundtrip_bpe[OF e tok_inv_train] by blast
qed

text \<open>
  C1, witness: a string with a two-byte, a three-byte, a four-byte and a
  one-byte character, on the tokenizer trained on \<^verbatim>\<open>'aaaa'\<close>.
\<close>

theorem roundtrip_witness:
  "encodable [0x41F, 0x20AC, 0x1F600, 0x61] \<and>
   (\<exists>ids. encode (snd (train [[97, 97, 97, 97]] 300 (snd BpeTokenizer_new)))
             [0x41F, 0x20AC, 0x1F600, 0x61] = Some (Inr ids) \<and>
          decode (snd (train [[97, 97, 97, 97]] 300 (snd BpeTokenizer_new))) ids
            = Inr [0x41F, 0x20AC, 0x1F600, 0x61])"
proof -
  have e: "encodable [0x41F, 0x20AC, 0x1F600, 0x61]"
    by (simp add: encodable_def scalar_value_def)
  note r = roundtrip[OF e, where texts = "[[97, 97, 97, 97]]" and max_vocab = 300
      and bself = "snd ByteTokenizer_new" and self = "snd BpeTokenizer_new"]
  show ?thesis using e conjunct2[OF conjunct2[OF r]] by (rule conjI)
qed

end
